theory Spec2Isabelle
  imports Main "HOL-Library.Sublist"
begin

section \<open>Go strings, runes and UTF-8\<close>

text \<open>
  A Go \<open>string\<close> is a sequence of bytes; it is modelled as a \<open>string\<close> (a list of
  8-bit characters). A \<open>rune\<close> (Go's \<open>int32\<close>) is a code point, modelled as an integer.
  \<open>decodeRune\<close> is \<open>utf8.DecodeRuneInString\<close>: the first rune of the text and its
  width in bytes; a byte that starts no well-formed sequence decodes to the error rune
  \<open>U+FFFD\<close> of width 1.
\<close>

type_synonym rune = int

definition RuneError :: rune where
  "RuneError = 0xFFFD"

definition byte :: "char \<Rightarrow> int" where
  "byte c = of_char c"

definition isCont :: "int \<Rightarrow> bool" where
  "isCont b = (0x80 \<le> b \<and> b \<le> 0xBF)"

text \<open>The expected width of a sequence and the accepted range of its second byte.\<close>

definition firstInfo :: "int \<Rightarrow> (nat \<times> int \<times> int) option" where
  "firstInfo b0 =
     (if 0xC2 \<le> b0 \<and> b0 \<le> 0xDF then Some (2, 0x80, 0xBF)
      else if b0 = 0xE0 then Some (3, 0xA0, 0xBF)
      else if 0xE1 \<le> b0 \<and> b0 \<le> 0xEC then Some (3, 0x80, 0xBF)
      else if b0 = 0xED then Some (3, 0x80, 0x9F)
      else if 0xEE \<le> b0 \<and> b0 \<le> 0xEF then Some (3, 0x80, 0xBF)
      else if b0 = 0xF0 then Some (4, 0x90, 0xBF)
      else if 0xF1 \<le> b0 \<and> b0 \<le> 0xF3 then Some (4, 0x80, 0xBF)
      else if b0 = 0xF4 then Some (4, 0x80, 0x8F)
      else None)"

fun decodeRune :: "string \<Rightarrow> rune \<times> nat" where
  "decodeRune [] = (RuneError, 0)"
| "decodeRune (c # s) =
     (let b0 = byte c in
      if b0 < 0x80 then (b0, 1)
      else (case firstInfo b0 of
              None \<Rightarrow> (RuneError, 1)
            | Some (sz, lo, hi) \<Rightarrow>
                if length s < sz - 1 then (RuneError, 1)
                else let b1 = byte (s ! 0) in
                  if b1 < lo \<or> hi < b1 then (RuneError, 1)
                  else if sz = 2 then ((b0 mod 0x20) * 0x40 + b1 mod 0x40, 2)
                  else let b2 = byte (s ! 1) in
                    if \<not> isCont b2 then (RuneError, 1)
                    else if sz = 3 then
                      ((b0 mod 0x10) * 0x1000 + (b1 mod 0x40) * 0x40 + b2 mod 0x40, 3)
                    else let b3 = byte (s ! 2) in
                      if \<not> isCont b3 then (RuneError, 1)
                      else ((b0 mod 0x08) * 0x40000 + (b1 mod 0x40) * 0x1000
                              + (b2 mod 0x40) * 0x40 + b3 mod 0x40, 4)))"

text \<open>The width of the first rune, at least 1 on a non-empty text.\<close>

definition runeWidth :: "string \<Rightarrow> nat" where
  "runeWidth s = snd (decodeRune s)"

text \<open>\<open>[]rune(s)\<close>: the runes of a text, decoded front to back.\<close>

fun runes :: "string \<Rightarrow> rune list" where
  "runes [] = []"
| "runes (c # s) = fst (decodeRune (c # s)) # runes (drop (runeWidth (c # s) - 1) s)"

text \<open>\<open>utf8.AppendRune\<close>: surrogates and values outside \<open>0 .. U+10FFFF\<close> are
  written as the error rune.\<close>

definition encodeRune :: "rune \<Rightarrow> string" where
  "encodeRune r =
     (if r < 0 \<or> 0x10FFFF < r \<or> (0xD800 \<le> r \<and> r \<le> 0xDFFF) then
        [char_of (0xEF::int), char_of (0xBF::int), char_of (0xBD::int)]
      else if r < 0x80 then [char_of r]
      else if r < 0x800 then [char_of (0xC0 + r div 0x40), char_of (0x80 + r mod 0x40)]
      else if r < 0x10000 then
        [char_of (0xE0 + r div 0x1000), char_of (0x80 + (r div 0x40) mod 0x40),
         char_of (0x80 + r mod 0x40)]
      else
        [char_of (0xF0 + r div 0x40000), char_of (0x80 + (r div 0x1000) mod 0x40),
         char_of (0x80 + (r div 0x40) mod 0x40), char_of (0x80 + r mod 0x40)])"

text \<open>\<open>string(rs)\<close> for a rune slice.\<close>

definition stringOfRunes :: "rune list \<Rightarrow> string" where
  "stringOfRunes rs = concat (map encodeRune rs)"

definition validUTF8 :: "string \<Rightarrow> bool" where
  "validUTF8 s = (stringOfRunes (runes s) = s)"

section \<open>Package strings\<close>

definition HasPrefix :: "string \<Rightarrow> string \<Rightarrow> bool" where
  "HasPrefix s p = (take (length p) s = p)"


definition lowerASCII :: "rune \<Rightarrow> rune" where
  "lowerASCII r = (if 0x41 \<le> r \<and> r \<le> 0x5A then r + 0x20 else r)"

text \<open>
  \<open>strings.ToLower\<close>. A text of ASCII bytes is lowered byte by byte. Any other text is
  mapped rune by rune with \<open>unicode.ToLower\<close> and encoded again; the case table of the
  Unicode standard for the runes beyond ASCII is the parameter \<open>L\<close>.
\<close>

definition unicodeToLower :: "(rune \<Rightarrow> rune) \<Rightarrow> rune \<Rightarrow> rune" where
  "unicodeToLower L r = (if r < 0x80 then lowerASCII r else L r)"

definition ToLower :: "(rune \<Rightarrow> rune) \<Rightarrow> string \<Rightarrow> string" where
  "ToLower L s =
     (if list_all (\<lambda>c. byte c < 0x80) s then map (\<lambda>c. char_of (lowerASCII (byte c))) s
      else stringOfRunes (map (unicodeToLower L) (runes s)))"

section \<open>Package config: severities\<close>

text \<open>\<open>type Severity int\<close> with the constants numbered by \<open>iota\<close>.\<close>

type_synonym Severity = int

definition SeverityLow :: Severity where "SeverityLow = 0"
definition SeverityMedium :: Severity where "SeverityMedium = 1"
definition SeverityHigh :: Severity where "SeverityHigh = 2"
definition SeverityCritical :: Severity where "SeverityCritical = 3"

definition Severity_String :: "Severity \<Rightarrow> string" where
  "Severity_String s =
     (if s = SeverityLow then ''low''
      else if s = SeverityMedium then ''medium''
      else if s = SeverityHigh then ''high''
      else if s = SeverityCritical then ''critical''
      else ''unknown'')"

definition ParseSeverity :: "(rune \<Rightarrow> rune) \<Rightarrow> string \<Rightarrow> Severity" where
  "ParseSeverity L s =
     (let l = ToLower L s in
      if l = ''low'' then SeverityLow
      else if l = ''medium'' then SeverityMedium
      else if l = ''high'' then SeverityHigh
      else if l = ''critical'' then SeverityCritical
      else SeverityLow)"

text \<open>Two texts are equal up to the case of their ASCII letters.\<close>

definition foldByte :: "char \<Rightarrow> char" where
  "foldByte c = char_of (lowerASCII (byte c))"

definition foldASCII :: "string \<Rightarrow> string" where
  "foldASCII s = map foldByte s"

definition severityNames :: "string list" where
  "severityNames = [''low'', ''medium'', ''high'', ''critical'']"

fun Join :: "string list \<Rightarrow> string \<Rightarrow> string" where
  "Join [] sep = []"
| "Join [x] sep = x"
| "Join (x # y # xs) sep = x @ sep @ Join (y # xs) sep"

text \<open>\<open>strings.Split(s, "\n")\<close>: the pieces between line feeds; never empty.\<close>

definition newline :: char where
  "newline = CHR 0x0A"

fun SplitLines :: "string \<Rightarrow> string list" where
  "SplitLines [] = [[]]"
| "SplitLines (c # s) =
     (if c = newline then [] # SplitLines s
      else (case SplitLines s of [] \<Rightarrow> [[c]] | l # ls \<Rightarrow> (c # l) # ls))"

text \<open>
  The white space of \<open>unicode.IsSpace\<close>: the ASCII and Latin-1 spaces and the runes
  of category Z and property Pattern_White_Space.
\<close>

definition spaceRunes :: "rune list" where
  "spaceRunes =
     [0x09, 0x0A, 0x0B, 0x0C, 0x0D, 0x20, 0x85, 0xA0, 0x1680,
      0x2000, 0x2001, 0x2002, 0x2003, 0x2004, 0x2005, 0x2006, 0x2007, 0x2008, 0x2009, 0x200A,
      0x2028, 0x2029, 0x202F, 0x205F, 0x3000]"

definition spaceEncodings :: "string list" where
  "spaceEncodings = map encodeRune spaceRunes"

definition HasSuffix :: "string \<Rightarrow> string \<Rightarrow> bool" where
  "HasSuffix s e = (length e \<le> length s \<and> drop (length s - length e) s = e)"

text \<open>
  \<open>strings.TrimSpace\<close>: all leading and trailing white space removed. The first
  (the last) rune of a text is a white-space rune exactly when the text starts (ends)
  with the UTF-8 encoding of one, so the text is stripped of such encodings at both
  ends, one after the other. (An encoding has at least one byte, which \<open>max\<close> records
  for the recursion.)
\<close>

fun TrimLeftSpace :: "string \<Rightarrow> string" where
  "TrimLeftSpace [] = []"
| "TrimLeftSpace (c # s) =
     (case find (\<lambda>e. HasPrefix (c # s) e) spaceEncodings of
        None \<Rightarrow> c # s
      | Some e \<Rightarrow> TrimLeftSpace (drop (length e - 1) s))"

function TrimRightSpace :: "string \<Rightarrow> string" where
  "TrimRightSpace s =
     (if s = [] then []
      else (case find (\<lambda>e. HasSuffix s e) spaceEncodings of
              None \<Rightarrow> s
            | Some e \<Rightarrow> TrimRightSpace (take (length s - max 1 (length e)) s)))"
  by pat_completeness auto
termination
  by (relation "measure length") auto

declare TrimRightSpace.simps [simp del]

definition TrimSpace :: "string \<Rightarrow> string" where
  "TrimSpace s = TrimRightSpace (TrimLeftSpace s)"

text \<open>\<open>%d\<close> of \<open>fmt.Sprintf\<close> for an \<open>int\<close>.\<close>

fun showNat :: "nat \<Rightarrow> string" where
  "showNat n = (if n < 10 then [char_of (0x30 + int n)]
                else showNat (n div 10) @ [char_of (0x30 + int (n mod 10))])"

definition Itoa :: "int \<Rightarrow> string" where
  "Itoa i = (if i < 0 then CHR ''-'' # showNat (nat (- i)) else showNat (nat i))"

section \<open>Package regexp\<close>

text \<open>
  The regular expressions of the program are values of \<open>re\<close>. A class is a list of
  rune ranges, as the compiler of package \<open>regexp/syntax\<close> holds it. The matcher gives
  Go's leftmost-first meaning: at one start position, \<open>matchEnds\<close> lists the ends of all
  matches in the order a backtracking search prefers them (a repetition takes as much
  as it can first, an alternation its left branch first), and the match is the head of
  that list. A position is the text still to read together with the fact whether the
  rune before it is a word character, which is all that \<open>\b\<close> looks at.
\<close>

datatype re =
    Cls "(rune \<times> rune) list"
  | NCls "(rune \<times> rune) list"
  | Cat re re
  | Alt re re
  | Star re
  | WordB
  | Eps

type_synonym pos = "bool \<times> string"

definition inRanges :: "(rune \<times> rune) list \<Rightarrow> rune \<Rightarrow> bool" where
  "inRanges rs r = list_ex (\<lambda>(lo, hi). lo \<le> r \<and> r \<le> hi) rs"

definition wordRanges :: "(rune \<times> rune) list" where
  "wordRanges = [(0x30, 0x39), (0x41, 0x5A), (0x5F, 0x5F), (0x61, 0x7A)]"

definition isWordRune :: "rune \<Rightarrow> bool" where
  "isWordRune r = inRanges wordRanges r"

definition nextIsWord :: "string \<Rightarrow> bool" where
  "nextIsWord s = (case s of [] \<Rightarrow> False | c # t \<Rightarrow> isWordRune (fst (decodeRune (c # t))))"

definition stepRune :: "(rune \<Rightarrow> bool) \<Rightarrow> pos \<Rightarrow> pos list" where
  "stepRune P z =
     (case snd z of
        [] \<Rightarrow> []
      | c # t \<Rightarrow>
          if P (fst (decodeRune (c # t)))
          then [(isWordRune (fst (decodeRune (c # t))), drop (runeWidth (c # t) - 1) t)]
          else [])"

text \<open>Greedy repetition; an iteration that reads nothing is not repeated.\<close>

primrec star :: "(pos \<Rightarrow> pos list) \<Rightarrow> nat \<Rightarrow> pos \<Rightarrow> pos list" where
  "star g 0 z = [z]"
| "star g (Suc n) z =
     concat (map (\<lambda>z'. if length (snd z') < length (snd z) then star g n z' else []) (g z))
       @ [z]"

primrec matchEnds :: "re \<Rightarrow> pos \<Rightarrow> pos list" where
  "matchEnds (Cls rs) z = stepRune (inRanges rs) z"
| "matchEnds (NCls rs) z = stepRune (\<lambda>r. \<not> inRanges rs r) z"
| "matchEnds (Cat a b) z = concat (map (matchEnds b) (matchEnds a z))"
| "matchEnds (Alt a b) z = matchEnds a z @ matchEnds b z"
| "matchEnds (Star a) z = star (matchEnds a) (length (snd z)) z"
| "matchEnds WordB z = (if fst z \<noteq> nextIsWord (snd z) then [z] else [])"
| "matchEnds Eps z = [z]"

text \<open>
  The unanchored search: the first start position, going right rune by rune, at which
  the expression matches. The result is the number of bytes skipped before the match
  and the length of the match.
\<close>

fun search :: "re \<Rightarrow> bool \<Rightarrow> string \<Rightarrow> (nat \<times> nat) option" where
  "search r w [] = (case matchEnds r (w, []) of [] \<Rightarrow> None | z # _ \<Rightarrow> Some (0, 0))"
| "search r w (c # t) =
     (case matchEnds r (w, c # t) of
        z # _ \<Rightarrow> Some (0, length (c # t) - length (snd z))
      | [] \<Rightarrow>
          (case search r (isWordRune (fst (decodeRune (c # t)))) (drop (runeWidth (c # t) - 1) t) of
             None \<Rightarrow> None
           | Some m \<Rightarrow> Some (max 1 (runeWidth (c # t)) + fst m, snd m)))"

text \<open>The search of \<open>doExecute\<close> from byte offset \<open>p\<close>, which sees the rune before
  \<open>p\<close> for \<open>\b\<close>; only an ASCII byte is a word character.\<close>

definition wordBefore :: "string \<Rightarrow> nat \<Rightarrow> bool" where
  "wordBefore src p = (0 < p \<and> p \<le> length src \<and> isWordRune (byte (src ! (p - 1))))"

definition execAt :: "re \<Rightarrow> string \<Rightarrow> nat \<Rightarrow> (nat \<times> nat) option" where
  "execAt r src p = search r (wordBefore src p) (drop p src)"

definition FindStringIndex :: "re \<Rightarrow> string \<Rightarrow> (nat \<times> nat) option" where
  "FindStringIndex r s =
     (case execAt r s 0 of None \<Rightarrow> None | Some m \<Rightarrow> Some (fst m, fst m + snd m))"


text \<open>
  The loop of \<open>allMatches\<close> behind \<open>FindAllString(s, -1)\<close>: \<open>p\<close> is the search
  position and \<open>prevEnd\<close> the end of the match before (\<open>-1\<close> at the start). An empty
  match directly after a match is not delivered, and the search moves on by one rune.
\<close>

definition advanceRune :: "string \<Rightarrow> nat \<Rightarrow> nat" where
  "advanceRune s p =
     (if 0 < runeWidth (drop p s) then p + runeWidth (drop p s) else length s + 1)"

text \<open>The test \<open>matches[1] == pos\<close>: the match found is the empty match at the
  search position.\<close>

definition emptyAtPos :: "nat \<times> nat \<Rightarrow> bool" where
  "emptyAtPos m = (fst m + snd m = 0)"

function allMatches :: "re \<Rightarrow> string \<Rightarrow> nat \<Rightarrow> int \<Rightarrow> (nat \<times> nat) list" where
  "allMatches r s p prevEnd =
     (if length s < p then []
      else (case execAt r s p of
              None \<Rightarrow> []
            | Some m \<Rightarrow>
                if emptyAtPos m then
                  (if int (p + fst m) = prevEnd then [] else [(p + fst m, p + fst m + snd m)])
                    @ allMatches r s (advanceRune s p) (int (p + fst m + snd m))
                else (p + fst m, p + fst m + snd m)
                       # allMatches r s (p + fst m + snd m) (int (p + fst m + snd m))))"
  by pat_completeness auto
termination
  by (relation "measure (\<lambda>(r, s, p, e). length s + 1 - p)") (auto simp: advanceRune_def emptyAtPos_def)

declare allMatches.simps [simp del]

definition FindAllStringIndex :: "re \<Rightarrow> string \<Rightarrow> (nat \<times> nat) list" where
  "FindAllStringIndex r s = allMatches r s 0 (- 1)"

definition FindAllString :: "re \<Rightarrow> string \<Rightarrow> string list" where
  "FindAllString r s = map (\<lambda>(a, b). take (b - a) (drop a s)) (FindAllStringIndex r s)"

text \<open>
  The loop of \<open>replaceAll\<close> behind \<open>ReplaceAllString\<close>, for a replacement text
  without \<open>$\<close> (the three replacements of the program have none): \<open>lastEnd\<close> is the end
  of the match before, \<open>p\<close> the search position, \<open>buf\<close> the output so far.
\<close>

definition nextSearchPos :: "string \<Rightarrow> nat \<Rightarrow> nat \<Rightarrow> nat" where
  "nextSearchPos src p a1 =
     (if a1 < p + runeWidth (drop p src) then p + runeWidth (drop p src)
      else if a1 < p + 1 then p + 1
      else a1)"

definition emitMatch :: "string \<Rightarrow> string \<Rightarrow> nat \<Rightarrow> nat \<Rightarrow> nat \<Rightarrow> string" where
  "emitMatch src repl lastEnd a0 a1 =
     take (a0 - lastEnd) (drop lastEnd src) @ (if lastEnd < a1 \<or> a0 = 0 then repl else [])"

function replaceAll :: "re \<Rightarrow> string \<Rightarrow> string \<Rightarrow> nat \<Rightarrow> nat \<Rightarrow> string \<Rightarrow> string" where
  "replaceAll r src repl lastEnd p buf =
     (if length src < p then buf @ drop lastEnd src
      else (case execAt r src p of
              None \<Rightarrow> buf @ drop lastEnd src
            | Some m \<Rightarrow>
                replaceAll r src repl (p + fst m + snd m)
                  (nextSearchPos src p (p + fst m + snd m))
                  (buf @ emitMatch src repl lastEnd (p + fst m) (p + fst m + snd m))))"
  by pat_completeness auto
termination
  by (relation "measure (\<lambda>(r, src, repl, e, p, buf). length src + 1 - p)")
    (auto simp: nextSearchPos_def)

declare replaceAll.simps [simp del]

definition ReplaceAllString :: "re \<Rightarrow> string \<Rightarrow> string \<Rightarrow> string" where
  "ReplaceAllString r src repl = replaceAll r src repl 0 0 []"

subsection \<open>Building the expressions\<close>

fun seq :: "re list \<Rightarrow> re" where
  "seq [] = Eps"
| "seq [r] = r"
| "seq (r # rs) = Cat r (seq rs)"

definition Plus :: "re \<Rightarrow> re" where
  "Plus r = Cat r (Star r)"

text \<open>A literal text of the pattern, rune by rune.\<close>

definition litRunes :: "rune list \<Rightarrow> re" where
  "litRunes rs = seq (map (\<lambda>r. Cls [(r, r)]) rs)"

definition lit :: "string \<Rightarrow> re" where
  "lit s = litRunes (runes s)"



text \<open>The Perl classes: \<open>\s\<close> is \<open>[\t\n\f\r ]\<close>, \<open>\w\<close> is \<open>[0-9A-Za-z_]\<close>, \<open>\d\<close> is
  \<open>[0-9]\<close>; the dot is every rune but the line feed; under \<open>(?i)\<close> the class \<open>\w\<close>
  is closed under case folding.\<close>

definition reSpace :: re where
  "reSpace = Cls [(0x09, 0x0A), (0x0C, 0x0D), (0x20, 0x20)]"

definition reWord :: re where
  "reWord = Cls wordRanges"


definition reDigit :: re where
  "reDigit = Cls [(0x30, 0x39)]"


definition reNot :: "char \<Rightarrow> re" where
  "reNot c = NCls [(byte c, byte c)]"

section \<open>Package parser: the facts of a file\<close>

datatype error = PanicSliceBounds | PanicInvalidUTF8Pattern

record Token =
  Type :: string
  Value :: string
  Line :: int
  Column :: int
  StartPos :: int
  EndPos :: int

record JavaMethod =
  Name :: string
  Annotations :: "string list"
  Parameters :: "string list"
  ReturnType :: string
  Line :: int
  Column :: int
  Body :: string
  IsPublic :: bool
  IsPrivate :: bool
  IsProtected :: bool
  IsStatic :: bool

record JavaField =
  Name :: string
  Type :: string
  Annotations :: "string list"
  Line :: int
  IsStatic :: bool
  IsFinal :: bool

record JavaClass =
  Name :: string
  Annotations :: "string list"
  Methods :: "JavaMethod list"
  Fields :: "JavaField list"
  Imports :: "string list"
  Package :: string

record JSFunction =
  Name :: string
  Parameters :: "string list"
  Line :: int
  Column :: int
  Body :: string
  IsArrow :: bool
  IsAsync :: bool

text \<open>
  The field \<open>AST interface{}\<close> holds what the parser of the language built: a
  \<open>*JavaClass\<close>, a \<open>[]JSFunction\<close>, a \<open>map[string]interface{}\<close> (markup and style
  sheets; its values are kept as texts here) or nothing.
\<close>

datatype AST =
    NoAST
  | JavaAST JavaClass
  | JSAST "JSFunction list"
  | MapAST "(string \<times> string list) list"

record ParsedFile =
  Path :: string
  Language :: string
  Content :: string
  Lines :: "string list"
  Tokens :: "Token list"
  AST :: AST

text \<open>
  \<open>extractAnnotations\<close>: the lines of the text before \<open>beforePos\<close> are read from the
  last to the first; \<open>scanAnnotations\<close> is that loop over the reversed lines, with the
  annotations found so far. Slicing beyond the text panics.
\<close>

fun scanAnnotations :: "string list \<Rightarrow> string list \<Rightarrow> string list" where
  "scanAnnotations [] annotations = annotations"
| "scanAnnotations (l # ls) annotations =
     (let line = TrimSpace l in
      if HasPrefix line ''@'' then scanAnnotations ls (line # annotations)
      else if line \<noteq> [] \<and> \<not> HasPrefix line ''//'' \<and> \<not> HasPrefix line ''*'' then annotations
      else scanAnnotations ls annotations)"

definition extractAnnotations :: "string \<Rightarrow> int \<Rightarrow> error + string list" where
  "extractAnnotations content beforePos =
     (if beforePos < 0 \<or> int (length content) < beforePos then Inl PanicSliceBounds
      else Inr (scanAnnotations (rev (SplitLines (take (nat beforePos) content))) []))"

section \<open>Package types and the rule configuration\<close>

record Issue =
  RuleID :: string
  File :: string
  Line :: int
  Column :: int
  Severity :: Severity
  Category :: string
  Message :: string
  Description :: string
  Suggestion :: string
  CodeSnippet :: string

record RuleConfig =
  ID :: string
  Name :: string
  Severity :: string
  Category :: string
  Description :: string
  Enabled :: bool

definition getCodeSnippet :: "ParsedFile \<Rightarrow> int \<Rightarrow> string" where
  "getCodeSnippet file line =
     (if line \<le> 0 \<or> int (length (Lines file)) < line then []
      else TrimSpace (Lines file ! nat (line - 1)))"

section \<open>Body extraction\<close>

text \<open>
  The expression \<open>QuoteMeta(name) + `\s*\([^)]*\)\s*\{`\<close>. The quoted name is a
  literal; \<open>MustCompile\<close> panics on a pattern that is not UTF-8.
\<close>

definition methodPattern :: "string \<Rightarrow> re" where
  "methodPattern name =
     seq [lit name, Star reSpace, lit ''('', Star (reNot (CHR '')'')), lit '')'', Star reSpace,
          lit ''{'']"

text \<open>
  The loop \<open>for i < len(content) && braceCount > 0\<close> over the runes from index \<open>i\<close>
  on; the result is the final \<open>i\<close> and \<open>braceCount\<close>.
\<close>

fun scanBraces :: "rune list \<Rightarrow> nat \<Rightarrow> int \<Rightarrow> nat \<times> int" where
  "scanBraces [] i braceCount = (i, braceCount)"
| "scanBraces (r # rs) i braceCount =
     (if 0 < braceCount then
        scanBraces rs (i + 1)
          (if r = 0x7B then braceCount + 1 else if r = 0x7D then braceCount - 1 else braceCount)
      else (i, braceCount))"

text \<open>
  \<open>extractMethodBody\<close>, the same text in \<open>TransactionalRule\<close> and in
  \<open>CyclomaticComplexityRule\<close>. \<open>start\<close> is a byte offset of the text (the match
  of \<open>FindStringIndex\<close>), and is then used as an index into the runes of the text.
\<close>

definition extractMethodBody :: "ParsedFile \<Rightarrow> JavaMethod \<Rightarrow> error + string" where
  "extractMethodBody file method =
     (if \<not> validUTF8 (JavaMethod.Name method) then Inl PanicInvalidUTF8Pattern
      else (case FindStringIndex (methodPattern (JavaMethod.Name method)) (Content file) of
              None \<Rightarrow> Inr []
            | Some match \<Rightarrow>
                let start = snd match - 1;
                    content = runes (Content file);
                    (i, braceCount) = scanBraces (drop (start + 1) content) (start + 1) 1
                in if braceCount = 0 then Inr (stringOfRunes (take (i - start) (drop start content)))
                   else Inr []))"

section \<open>The cyclomatic-complexity rule\<close>

text \<open>The twelve expressions of \<open>branchPatterns\<close>, in the order of the source.\<close>

definition branchPatterns :: "re list" where
  "branchPatterns =
     [seq [WordB, lit ''if'', Star reSpace, lit ''(''],
      seq [WordB, lit ''else'', Plus reSpace, lit ''if'', Star reSpace, lit ''(''],
      seq [WordB, lit ''else'', WordB],
      seq [WordB, lit ''while'', Star reSpace, lit ''(''],
      seq [WordB, lit ''for'', Star reSpace, lit ''(''],
      seq [WordB, lit ''do'', Star reSpace, lit ''{''],
      seq [WordB, lit ''switch'', Star reSpace, lit ''(''],
      seq [WordB, lit ''case'', Plus reSpace],
      seq [WordB, lit ''catch'', Star reSpace, lit ''(''],
      seq [lit ''?'', Star reSpace, Plus (reNot (CHR '':'')), Star reSpace, lit '':''],
      lit ''&&'',
      lit ''||'']"

text \<open>The loop over the patterns, adding the number of matches of each.\<close>

fun countBranches :: "re list \<Rightarrow> string \<Rightarrow> int \<Rightarrow> int" where
  "countBranches [] methodBody complexity = complexity"
| "countBranches (pattern # ps) methodBody complexity =
     countBranches ps methodBody (complexity + int (length (FindAllString pattern methodBody)))"

definition calculateComplexity :: "ParsedFile \<Rightarrow> JavaMethod \<Rightarrow> error + int" where
  "calculateComplexity file method =
     (case extractMethodBody file method of
        Inl e \<Rightarrow> Inl e
      | Inr methodBody \<Rightarrow>
          if methodBody = [] then Inr 1
          else Inr (countBranches branchPatterns methodBody 1))"

definition ccMsg1 :: string where
  "ccMsg1 =
     [CHR 0xEB, CHR 0xA9, CHR 0x94, CHR 0xEC, CHR 0x86, CHR 0x8C, CHR 0xEB, CHR 0x93, CHR
      0x9C] @ '' '' @ [CHR 0x27]"

definition ccMsg2 :: string where
  "ccMsg2 =
     [CHR 0x27, CHR 0xEC, CHR 0x9D, CHR 0x98] @ '' '' @ [CHR 0xEC, CHR 0x88, CHR 0x9C, CHR
      0xED, CHR 0x99, CHR 0x98] @ '' '' @ [CHR 0xEB, CHR 0xB3, CHR 0xB5, CHR 0xEC, CHR
      0x9E, CHR 0xA1, CHR 0xEB, CHR 0x8F, CHR 0x84, CHR 0xEA, CHR 0xB0, CHR 0x80] @ '' '' @
      [CHR 0xEB, CHR 0x84, CHR 0x88, CHR 0xEB, CHR 0xAC, CHR 0xB4] @ '' '' @ [CHR 0xEB, CHR
      0x86, CHR 0x92, CHR 0xEC, CHR 0x8A, CHR 0xB5, CHR 0xEB, CHR 0x8B, CHR 0x88, CHR 0xEB,
      CHR 0x8B, CHR 0xA4] @ '' ('' @ [CHR 0xEB, CHR 0xB3, CHR 0xB5, CHR 0xEC, CHR 0x9E, CHR
      0xA1, CHR 0xEB, CHR 0x8F, CHR 0x84] @ '': ''"

definition ccDescription :: string where
  "ccDescription =
     [CHR 0xEB, CHR 0x86, CHR 0x92, CHR 0xEC, CHR 0x9D, CHR 0x80] @ '' '' @ [CHR 0xEC, CHR
      0x88, CHR 0x9C, CHR 0xED, CHR 0x99, CHR 0x98] @ '' '' @ [CHR 0xEB, CHR 0xB3, CHR
      0xB5, CHR 0xEC, CHR 0x9E, CHR 0xA1, CHR 0xEB, CHR 0x8F, CHR 0x84, CHR 0xEB, CHR 0x8A,
      CHR 0x94] @ '' '' @ [CHR 0xEC, CHR 0xBD, CHR 0x94, CHR 0xEB, CHR 0x93, CHR 0x9C] @ ''
      '' @ [CHR 0xEC, CHR 0x9D, CHR 0xB4, CHR 0xED, CHR 0x95, CHR 0xB4, CHR 0xEB, CHR 0x8F,
      CHR 0x84, CHR 0xEC, CHR 0x99, CHR 0x80] @ '' '' @ [CHR 0xED, CHR 0x85, CHR 0x8C, CHR
      0xEC, CHR 0x8A, CHR 0xA4, CHR 0xED, CHR 0x8A, CHR 0xB8] @ '' '' @ [CHR 0xEC, CHR
      0x96, CHR 0xB4, CHR 0xEB, CHR 0xA0, CHR 0xA4, CHR 0xEC, CHR 0x9B, CHR 0x80, CHR 0xEC,
      CHR 0x9D, CHR 0x84] @ '' '' @ [CHR 0xEC, CHR 0xA6, CHR 0x9D, CHR 0xEA, CHR 0xB0, CHR
      0x80, CHR 0xEC, CHR 0x8B, CHR 0x9C, CHR 0xED, CHR 0x82, CHR 0xB5, CHR 0xEB, CHR 0x8B,
      CHR 0x88, CHR 0xEB, CHR 0x8B, CHR 0xA4]"

definition ccSuggestion :: string where
  "ccSuggestion =
     [CHR 0xEB, CHR 0xA9, CHR 0x94, CHR 0xEC, CHR 0x86, CHR 0x8C, CHR 0xEB, CHR 0x93, CHR
      0x9C, CHR 0xEB, CHR 0xA5, CHR 0xBC] @ '' '' @ [CHR 0xEB, CHR 0x8D, CHR 0x94] @ '' ''
      @ [CHR 0xEC, CHR 0x9E, CHR 0x91, CHR 0xEC, CHR 0x9D, CHR 0x80] @ '' '' @ [CHR 0xEB,
      CHR 0x8B, CHR 0xA8, CHR 0xEC, CHR 0x9C, CHR 0x84, CHR 0xEB, CHR 0xA1, CHR 0x9C] @ ''
      '' @ [CHR 0xEB, CHR 0xB6, CHR 0x84, CHR 0xED, CHR 0x95, CHR 0xA0, CHR 0xED, CHR 0x95,
      CHR 0x98, CHR 0xEC, CHR 0x97, CHR 0xAC] @ '' '' @ [CHR 0xEB, CHR 0xB3, CHR 0xB5, CHR
      0xEC, CHR 0x9E, CHR 0xA1, CHR 0xEB, CHR 0x8F, CHR 0x84, CHR 0xEB, CHR 0xA5, CHR 0xBC]
      @ '' '' @ [CHR 0xEB, CHR 0x82, CHR 0xAE, CHR 0xEC, CHR 0xB6, CHR 0x94, CHR 0xEC, CHR
      0x84, CHR 0xB8, CHR 0xEC, CHR 0x9A, CHR 0x94]"

text \<open>The message \<open>Sprintf("... '%s' ... %d)", method.Name, complexity)\<close>.\<close>

definition complexityMessage :: "string \<Rightarrow> int \<Rightarrow> string" where
  "complexityMessage name complexity = ccMsg1 @ name @ ccMsg2 @ Itoa complexity @ '')''"

definition complexityIssue :: "(rune \<Rightarrow> rune) \<Rightarrow> RuleConfig \<Rightarrow> ParsedFile \<Rightarrow> JavaMethod \<Rightarrow> int \<Rightarrow> Issue" where
  "complexityIssue L config file method complexity =
     \<lparr> RuleID = RuleConfig.ID config,
       File = Path file,
       Line = JavaMethod.Line method,
       Column = JavaMethod.Column method,
       Severity = ParseSeverity L (RuleConfig.Severity config),
       Category = RuleConfig.Category config,
       Message = complexityMessage (JavaMethod.Name method) complexity,
       Description = ccDescription,
       Suggestion = ccSuggestion,
       CodeSnippet = getCodeSnippet file (JavaMethod.Line method) \<rparr>"

text \<open>The loop over the methods of \<open>Check\<close>, with the issues found so far; a panic
  ends it.\<close>

fun complexityLoop ::
  "(rune \<Rightarrow> rune) \<Rightarrow> RuleConfig \<Rightarrow> ParsedFile \<Rightarrow> JavaMethod list \<Rightarrow> Issue list \<Rightarrow> error + Issue list"
where
  "complexityLoop L config file [] issues = Inr issues"
| "complexityLoop L config file (method # rest) issues =
     (case calculateComplexity file method of
        Inl e \<Rightarrow> Inl e
      | Inr complexity \<Rightarrow>
          if 10 < complexity
          then complexityLoop L config file rest
                 (issues @ [complexityIssue L config file method complexity])
          else complexityLoop L config file rest issues)"

definition CyclomaticComplexityRule_Check ::
  "(rune \<Rightarrow> rune) \<Rightarrow> RuleConfig \<Rightarrow> ParsedFile \<Rightarrow> error + Issue list"
where
  "CyclomaticComplexityRule_Check L config file =
     (case AST file of
        JavaAST javaClass \<Rightarrow> complexityLoop L config file (Methods javaClass) []
      | _ \<Rightarrow> Inr [])"

section \<open>The transaction-need rule\<close>
































section \<open>The duplicate-code rule: block similarity\<close>

text \<open>\<open>`"[^"]*"`\<close>, \<open>`\b\d+\b`\<close> and \<open>`\b[a-zA-Z_][a-zA-Z0-9_]*\b`\<close>.\<close>

definition dquote :: char where
  "dquote = CHR 0x22"

definition stringRegex :: re where
  "stringRegex = seq [lit [dquote], Star (reNot dquote), lit [dquote]]"

definition numberRegex :: re where
  "numberRegex = seq [WordB, Plus reDigit, WordB]"

definition variableRegex :: re where
  "variableRegex = seq [WordB, Cls [(0x41, 0x5A), (0x5F, 0x5F), (0x61, 0x7A)], Star reWord, WordB]"

definition normalizeCodeLine :: "string \<Rightarrow> string" where
  "normalizeCodeLine line =
     ReplaceAllString variableRegex
       (ReplaceAllString numberRegex
          (ReplaceAllString stringRegex line ([dquote] @ ''STRING'' @ [dquote]))
          ''NUM'')
       ''VAR''"

fun normalizeLines :: "string list \<Rightarrow> string list \<Rightarrow> string list" where
  "normalizeLines [] normalized = normalized"
| "normalizeLines (line # ls) normalized =
     (let trimmed = TrimSpace line in
      if trimmed = [] \<or> HasPrefix trimmed ''//'' \<or> HasPrefix trimmed ''*''
      then normalizeLines ls normalized
      else normalizeLines ls (normalized @ [normalizeCodeLine trimmed]))"

definition normalizeBlock :: "string list \<Rightarrow> string" where
  "normalizeBlock lines =
     (let normalized = normalizeLines lines [] in
      if length normalized < 3 then [] else Join normalized [newline])"

text \<open>
  The map \<open>blocks\<close> from a normalized block to the line numbers where it starts is an
  association list with one entry per key; \<open>appendLine\<close> is
  \<open>blocks[block] = append(blocks[block], n)\<close>.
\<close>

type_synonym blockMap = "(string \<times> int list) list"

fun appendLine :: "blockMap \<Rightarrow> string \<Rightarrow> int \<Rightarrow> blockMap" where
  "appendLine [] block n = [(block, [n])]"
| "appendLine ((k, v) # rest) block n =
     (if k = block then (k, v @ [n]) # rest else (k, v) # appendLine rest block n)"

definition blockSize :: int where
  "blockSize = 5"

text \<open>The loop \<open>for i := 0; i <= len(file.Lines)-blockSize; i++\<close>, from \<open>i\<close> on.\<close>

function collectBlocks :: "string list \<Rightarrow> nat \<Rightarrow> blockMap \<Rightarrow> blockMap" where
  "collectBlocks lines i blocks =
     (if int i \<le> int (length lines) - blockSize then
        collectBlocks lines (i + 1)
          (let block = normalizeBlock (take (nat blockSize) (drop i lines)) in
           if block \<noteq> [] then appendLine blocks block (int i + 1) else blocks)
      else blocks)"
  by pat_completeness auto
termination
  by (relation "measure (\<lambda>(lines, i, blocks). length lines - i)") (auto simp: blockSize_def)

declare collectBlocks.simps [simp del]

definition dupMsg1 :: string where
  "dupMsg1 =
     [CHR 0xEC, CHR 0xA4, CHR 0x91, CHR 0xEB, CHR 0xB3, CHR 0xB5, CHR 0xEB, CHR 0x90, CHR
      0x9C] @ '' '' @ [CHR 0xEC, CHR 0xBD, CHR 0x94, CHR 0xEB, CHR 0x93, CHR 0x9C] @ '' ''
      @ [CHR 0xEB, CHR 0xB8, CHR 0x94, CHR 0xEB, CHR 0xA1, CHR 0x9D, CHR 0xEC, CHR 0x9D,
      CHR 0xB4] @ '' '' @ [CHR 0xEB, CHR 0xB0, CHR 0x9C, CHR 0xEA, CHR 0xB2, CHR 0xAC, CHR
      0xEB, CHR 0x90, CHR 0x98, CHR 0xEC, CHR 0x97, CHR 0x88, CHR 0xEC, CHR 0x8A, CHR 0xB5,
      CHR 0xEB, CHR 0x8B, CHR 0x88, CHR 0xEB, CHR 0x8B, CHR 0xA4] @ '' (''"

definition dupMsg2 :: string where
  "dupMsg2 =
     [CHR 0xEA, CHR 0xB0, CHR 0x9C] @ '' '' @ [CHR 0xEC, CHR 0x9C, CHR 0x84, CHR 0xEC, CHR
      0xB9, CHR 0x98, CHR 0xEC, CHR 0x97, CHR 0x90, CHR 0xEC, CHR 0x84, CHR 0x9C] @ '' '' @
      [CHR 0xEB, CHR 0xB0, CHR 0x98, CHR 0xEB, CHR 0xB3, CHR 0xB5] @ '')''"

definition dupDescription :: string where
  "dupDescription =
     [CHR 0xEB, CHR 0x8F, CHR 0x99, CHR 0xEC, CHR 0x9D, CHR 0xBC, CHR 0xED, CHR 0x95, CHR
      0x9C] @ '' '' @ [CHR 0xEC, CHR 0xBD, CHR 0x94, CHR 0xEB, CHR 0x93, CHR 0x9C] @ '' ''
      @ [CHR 0xEB, CHR 0xB8, CHR 0x94, CHR 0xEB, CHR 0xA1, CHR 0x9D, CHR 0xEC, CHR 0x9D,
      CHR 0xB4] @ '' '' @ [CHR 0xEC, CHR 0x97, CHR 0xAC, CHR 0xEB, CHR 0x9F, CHR 0xAC] @ ''
      '' @ [CHR 0xEA, CHR 0xB3, CHR 0xB3, CHR 0xEC, CHR 0x97, CHR 0x90, CHR 0xEC, CHR 0x84,
      CHR 0x9C] @ '' '' @ [CHR 0xEB, CHR 0xB0, CHR 0x98, CHR 0xEB, CHR 0xB3, CHR 0xB5, CHR
      0xEB, CHR 0x90, CHR 0x98, CHR 0xEA, CHR 0xB3, CHR 0xA0] @ '' '' @ [CHR 0xEC, CHR
      0x9E, CHR 0x88, CHR 0xEC, CHR 0x8A, CHR 0xB5, CHR 0xEB, CHR 0x8B, CHR 0x88, CHR 0xEB,
      CHR 0x8B, CHR 0xA4]"

definition dupSuggestion :: string where
  "dupSuggestion =
     [CHR 0xEA, CHR 0xB3, CHR 0xB5, CHR 0xED, CHR 0x86, CHR 0xB5] @ '' '' @ [CHR 0xEB, CHR
      0xA9, CHR 0x94, CHR 0xEC, CHR 0x86, CHR 0x8C, CHR 0xEB, CHR 0x93, CHR 0x9C, CHR 0xEB,
      CHR 0xA1, CHR 0x9C] @ '' '' @ [CHR 0xEC, CHR 0xB6, CHR 0x94, CHR 0xEC, CHR 0xB6, CHR
      0x9C, CHR 0xED, CHR 0x95, CHR 0x98, CHR 0xEC, CHR 0x97, CHR 0xAC] @ '' '' @ [CHR
      0xEC, CHR 0xA4, CHR 0x91, CHR 0xEB, CHR 0xB3, CHR 0xB5, CHR 0xEC, CHR 0x9D, CHR 0x84]
      @ '' '' @ [CHR 0xEC, CHR 0xA0, CHR 0x9C, CHR 0xEA, CHR 0xB1, CHR 0xB0, CHR 0xED, CHR
      0x95, CHR 0x98, CHR 0xEC, CHR 0x84, CHR 0xB8, CHR 0xEC, CHR 0x9A, CHR 0x94]"

definition duplicateMessage :: "int \<Rightarrow> string" where
  "duplicateMessage n = dupMsg1 @ Itoa n @ dupMsg2"

definition duplicateIssue :: "(rune \<Rightarrow> rune) \<Rightarrow> RuleConfig \<Rightarrow> ParsedFile \<Rightarrow> int \<Rightarrow> int \<Rightarrow> Issue" where
  "duplicateIssue L config file lineNum n =
     \<lparr> RuleID = RuleConfig.ID config,
       File = Path file,
       Line = lineNum,
       Column = 1,
       Severity = ParseSeverity L (RuleConfig.Severity config),
       Category = RuleConfig.Category config,
       Message = duplicateMessage n,
       Description = dupDescription,
       Suggestion = dupSuggestion,
       CodeSnippet = getCodeSnippet file lineNum \<rparr>"

text \<open>
  The loop \<open>for _, lines := range blocks\<close>. Go leaves the order in which \<open>range\<close>
  visits the keys of a map open; \<open>order\<close> is the order of one run, a list of the keys.
\<close>

definition lookupBlock :: "blockMap \<Rightarrow> string \<Rightarrow> int list" where
  "lookupBlock blocks k = (case map_of blocks k of None \<Rightarrow> [] | Some v \<Rightarrow> v)"

fun reportBlocks ::
  "(rune \<Rightarrow> rune) \<Rightarrow> RuleConfig \<Rightarrow> ParsedFile \<Rightarrow> blockMap \<Rightarrow> string list \<Rightarrow> Issue list \<Rightarrow> Issue list"
where
  "reportBlocks L config file blocks [] issues = issues"
| "reportBlocks L config file blocks (k # ks) issues =
     (let lines = lookupBlock blocks k in
      if 2 \<le> length lines
      then reportBlocks L config file blocks ks
             (issues @ map (\<lambda>lineNum. duplicateIssue L config file lineNum (int (length lines))) lines)
      else reportBlocks L config file blocks ks issues)"

definition fileBlocks :: "ParsedFile \<Rightarrow> blockMap" where
  "fileBlocks file = collectBlocks (Lines file) 0 []"

definition validOrder :: "blockMap \<Rightarrow> string list \<Rightarrow> bool" where
  "validOrder blocks order = (distinct order \<and> set order = set (map fst blocks))"

definition checkDuplicateBlocks ::
  "(rune \<Rightarrow> rune) \<Rightarrow> RuleConfig \<Rightarrow> string list \<Rightarrow> ParsedFile \<Rightarrow> Issue list \<Rightarrow> Issue list"
where
  "checkDuplicateBlocks L config order file issues =
     reportBlocks L config file (fileBlocks file) order issues"

section \<open>The layer-architecture rule\<close>









section \<open>The exception-handling rule\<close>




















section \<open>The engine\<close>

text \<open>A rule is a value with the methods of the interface \<open>Rule\<close>; the engine holds
  the rules of each language.\<close>

record Rule =
  ID :: string
  Name :: string
  Severity :: Severity
  Category :: string
  Description :: string
  Check :: "ParsedFile \<Rightarrow> error + Issue list"








section \<open>The search seen from the text still to read\<close>

text \<open>
  The loops of \<open>allMatches\<close> and \<open>replaceAll\<close> work with offsets into the whole
  text. For an expression that reads at least one rune in every match (all expressions
  of the program do), they are the following recursions over the text still to read;
  the theorems below prove this. \<open>ctxAt w s k\<close> is the word context \<open>k\<close> bytes into
  \<open>s\<close>, when it is \<open>w\<close> at the start of \<open>s\<close>.
\<close>

definition ctxAt :: "bool \<Rightarrow> string \<Rightarrow> nat \<Rightarrow> bool" where
  "ctxAt w s k = (if k = 0 then w else isWordRune (byte (s ! (k - 1))))"

fun consuming :: "re \<Rightarrow> bool" where
  "consuming (Cls rs) = True"
| "consuming (NCls rs) = True"
| "consuming (Cat a b) = (consuming a \<or> consuming b)"
| "consuming (Alt a b) = (consuming a \<and> consuming b)"
| "consuming (Star a) = False"
| "consuming WordB = False"
| "consuming Eps = False"

function countFrom :: "re \<Rightarrow> bool \<Rightarrow> string \<Rightarrow> nat" where
  "countFrom r w s =
     (case search r w s of
        None \<Rightarrow> 0
      | Some m \<Rightarrow>
          if length (drop (fst m + snd m) s) < length s
          then Suc (countFrom r (ctxAt w s (fst m + snd m)) (drop (fst m + snd m) s))
          else 0)"
  by pat_completeness auto
termination
  by (relation "measure (\<lambda>(r, w, s). length s)") auto

declare countFrom.simps [simp del]

function replaceFrom :: "re \<Rightarrow> string \<Rightarrow> bool \<Rightarrow> string \<Rightarrow> string" where
  "replaceFrom r repl w s =
     (case search r w s of
        None \<Rightarrow> s
      | Some m \<Rightarrow>
          if length (drop (fst m + snd m) s) < length s
          then take (fst m) s @ repl
                 @ replaceFrom r repl (ctxAt w s (fst m + snd m)) (drop (fst m + snd m) s)
          else s)"
  by pat_completeness auto
termination
  by (relation "measure (\<lambda>(r, repl, w, s). length s)") auto

declare replaceFrom.simps [simp del]

text \<open>A position that the matcher can be at, \<open>k\<close> bytes into \<open>s\<close>: behind no rune or
  behind at least the first one.\<close>

definition reach :: "bool \<Rightarrow> string \<Rightarrow> pos \<Rightarrow> bool" where
  "reach w s z =
     (\<exists>k \<le> length s. snd z = drop k s \<and> fst z = ctxAt w s k \<and> (k = 0 \<or> runeWidth s \<le> k))"

section \<open>The matcher seen on runes\<close>






fun dropRunes :: "nat \<Rightarrow> string \<Rightarrow> string" where
  "dropRunes 0 s = s"
| "dropRunes (Suc k) [] = []"
| "dropRunes (Suc k) (c # t) = dropRunes k (drop (runeWidth (c # t) - 1) t)"

section \<open>Notions of the specification\<close>

text \<open>
  The definitions of this section follow the words of the specification; the theorems
  compare them with the functions above.
\<close>

text \<open>The method body as the rules see it (the empty text when extraction panics).\<close>

definition bodyOf :: "ParsedFile \<Rightarrow> JavaMethod \<Rightarrow> string" where
  "bodyOf file method = (case extractMethodBody file method of Inl e \<Rightarrow> [] | Inr b \<Rightarrow> b)"

text \<open>The score of the specification: 1, and one more for every non-overlapping match
  of every branch construct; 1 for an empty body.\<close>

definition specScore :: "string \<Rightarrow> int" where
  "specScore body =
     (if body = [] then 1
      else 1 + sum_list (map (\<lambda>pattern. int (length (FindAllString pattern body))) branchPatterns))"













text \<open>The brace depth after each character of a text: \<open>+1\<close> on an opening brace,
  \<open>-1\<close> on a closing one.\<close>

fun depthTrace :: "int \<Rightarrow> string \<Rightarrow> int list" where
  "depthTrace d [] = []"
| "depthTrace d (c # s) =
     (let d' = (if c = CHR ''{'' then d + 1 else if c = CHR ''}'' then d - 1 else d)
      in d' # depthTrace d' s)"

text \<open>
  The annotations of the specification for a list of lines, top to bottom: from the
  last line upwards, as long as a line is an annotation, blank or a comment, and of
  these the annotations, in the order of the text.
\<close>

definition isAnnotationLine :: "string \<Rightarrow> bool" where
  "isAnnotationLine l = HasPrefix (TrimSpace l) ''@''"

definition isSkippedLine :: "string \<Rightarrow> bool" where
  "isSkippedLine l =
     (TrimSpace l = [] \<or> HasPrefix (TrimSpace l) ''//'' \<or> HasPrefix (TrimSpace l) ''*'')"

definition specAnnotations :: "string list \<Rightarrow> string list" where
  "specAnnotations lines =
     map TrimSpace
       (filter isAnnotationLine
          (rev (takeWhile (\<lambda>l. isAnnotationLine l \<or> isSkippedLine l) (rev lines))))"

text \<open>A text of blank lines only.\<close>

definition blankLines :: "string \<Rightarrow> bool" where
  "blankLines ws = list_all (\<lambda>l. TrimSpace l = []) (SplitLines ws)"

text \<open>
  The windows of the specification: window \<open>i\<close> (counted from 0) is the five lines
  from line \<open>i + 1\<close> on, its key is the normalized block, and the group of a key is
  the list of the start lines of the windows with that key.
\<close>

definition windowCount :: "string list \<Rightarrow> nat" where
  "windowCount lines = nat (int (length lines) - blockSize + 1)"

definition windowKey :: "string list \<Rightarrow> nat \<Rightarrow> string" where
  "windowKey lines i = normalizeBlock (take (nat blockSize) (drop i lines))"

definition keyGroup :: "string list \<Rightarrow> string \<Rightarrow> int list" where
  "keyGroup lines k =
     map (\<lambda>i. int i + 1) (filter (\<lambda>i. windowKey lines i = k) [0..<windowCount lines])"

text \<open>Seven lines of one shape: three windows with one key.\<close>

definition exSevenLines :: "string list" where
  "exSevenLines = [''a = 1;'', ''b = 2;'', ''c = 3;'', ''d = 4;'', ''e = 5;'', ''f = 6;'', ''g = 7;'']"

definition exSevenKey :: string where
  "exSevenKey = Join (replicate 5 ''VAR = VAR;'') [newline]"

text \<open>One round of the loop that collects the blocks.\<close>

definition blockStep :: "string list \<Rightarrow> blockMap \<Rightarrow> nat \<Rightarrow> blockMap" where
  "blockStep lines blocks i =
     (if windowKey lines i \<noteq> [] then appendLine blocks (windowKey lines i) (int i + 1) else blocks)"

text \<open>
  Branch statements put directly behind the opening brace of a body, each with the
  number of matches of the twelve patterns, in their order, inside its text.
\<close>

definition headInsertions :: "(string \<times> nat list) list" where
  "headInsertions =
     [(''if(x);'',           [1, 0, 0, 0, 0, 0, 0, 0, 0, 0, 0, 0]),
      (''else;'',            [0, 0, 1, 0, 0, 0, 0, 0, 0, 0, 0, 0]),
      (''while(x);'',        [0, 0, 0, 1, 0, 0, 0, 0, 0, 0, 0, 0]),
      (''for(;;);'',         [0, 0, 0, 0, 1, 0, 0, 0, 0, 0, 0, 0]),
      (''switch(x){}'',      [0, 0, 0, 0, 0, 0, 1, 0, 0, 0, 0, 0]),
      (''try{}catch(E e){}'', [0, 0, 0, 0, 0, 0, 0, 0, 1, 0, 0, 0]),
      (''x=a?b:c;'',         [0, 0, 0, 0, 0, 0, 0, 0, 0, 1, 0, 0]),
      (''x=a&&b;'',          [0, 0, 0, 0, 0, 0, 0, 0, 0, 0, 1, 0]),
      (''x=a||b;'',          [0, 0, 0, 0, 0, 0, 0, 0, 0, 0, 0, 1]),
      (''do{}while(x);'',    [0, 0, 0, 1, 0, 1, 0, 0, 0, 0, 0, 0]),
      (''else if(x);'',      [1, 1, 1, 0, 0, 0, 0, 0, 0, 0, 0, 0])]"

text \<open>
  Words and identifiers. A word is a maximal run of the bytes \<open>[0-9A-Za-z_]\<close>;
  \<open>wordMap h\<close> rewrites every word of a line with \<open>h\<close> and keeps all other bytes. A
  word is identifier-shaped when it does not start with a digit. Renaming the
  identifiers of a line with \<open>f\<close> rewrites every identifier-shaped word \<open>w\<close> to
  \<open>f w\<close>.
\<close>

definition isWordByte :: "char \<Rightarrow> bool" where
  "isWordByte c = isWordRune (byte c)"

definition isDigitByte :: "char \<Rightarrow> bool" where
  "isDigitByte c = (0x30 \<le> byte c \<and> byte c \<le> 0x39)"

function wordMap :: "(string \<Rightarrow> string) \<Rightarrow> string \<Rightarrow> string" where
  "wordMap h [] = []"
| "wordMap h (c # t) =
     (if isWordByte c
      then h (c # takeWhile isWordByte t) @ wordMap h (dropWhile isWordByte t)
      else c # wordMap h t)"
  by pat_completeness auto
termination
  by (relation "measure (\<lambda>(h, s). length s)") (auto simp: length_dropWhile_le le_imp_less_Suc)

definition isWord :: "string \<Rightarrow> bool" where
  "isWord w = (w \<noteq> [] \<and> list_all isWordByte w)"

definition identShaped :: "string \<Rightarrow> bool" where
  "identShaped w = (isWord w \<and> \<not> isDigitByte (hd w))"

definition renameIdentifiers :: "(string \<Rightarrow> string) \<Rightarrow> string \<Rightarrow> string" where
  "renameIdentifiers f line = wordMap (\<lambda>w. if identShaped w then f w else w) line"

text \<open>The replacement of quoted texts, written directly: a quote with a later quote
  opens a quoted text, which ends at the next quote.\<close>

function replaceQuoted :: "string \<Rightarrow> string \<Rightarrow> string" where
  "replaceQuoted repl [] = []"
| "replaceQuoted repl (c # t) =
     (if c = dquote \<and> dquote \<in> set t
      then repl @ replaceQuoted repl (drop 1 (dropWhile (\<lambda>x. x \<noteq> dquote) t))
      else c # replaceQuoted repl t)"
  by pat_completeness auto
termination
proof (relation "measure (\<lambda>(repl, s). length s)", goal_cases)
  case 1
  show ?case by simp
next
  case (2 repl c t)
  have "length (dropWhile (\<lambda>x. x \<noteq> dquote) t) \<le> length t"
    by (rule length_dropWhile_le)
  then show ?case by simp
next
  case (3 repl c t)
  show ?case by simp
qed

text \<open>Two lines differ only in their identifiers when they are the same line once
  every identifier is replaced by one name.\<close>

definition eraseIdentifiers :: "string \<Rightarrow> string" where
  "eraseIdentifiers line = renameIdentifiers (\<lambda>w. ''x'') line"

definition differOnlyInIdentifiers :: "string \<Rightarrow> string \<Rightarrow> bool" where
  "differOnlyInIdentifiers a b = (eraseIdentifiers a = eraseIdentifiers b)"

text \<open>
  The key of a window: a line counts when, trimmed, it is neither empty nor starts with
  \<open>//\<close> or \<open>*\<close>; with fewer than three such lines there is no key; otherwise each of
  them is trimmed, its quoted texts become \<open>"STRING"\<close>, then every word of digits and
  every word shaped like an identifier becomes \<open>VAR\<close>, and the lines are joined with
  line feeds.
\<close>

definition substantiveLine :: "string \<Rightarrow> bool" where
  "substantiveLine l =
     (TrimSpace l \<noteq> [] \<and> \<not> prefix ''//'' (TrimSpace l) \<and> \<not> prefix ''*'' (TrimSpace l))"

definition placeholderWord :: "string \<Rightarrow> string" where
  "placeholderWord w = (if list_all isDigitByte w \<or> identShaped w then ''VAR'' else w)"

definition specNormalizeLine :: "string \<Rightarrow> string" where
  "specNormalizeLine l =
     wordMap placeholderWord (replaceQuoted ([dquote] @ ''STRING'' @ [dquote]) l)"

definition specBlockKey :: "string list \<Rightarrow> string" where
  "specBlockKey win =
     (let kept = filter substantiveLine win in
      if length kept < 3 then []
      else Join (map (\<lambda>l. specNormalizeLine (TrimSpace l)) kept) [newline])"


section \<open>Example inputs\<close>

definition exMethod :: "string \<Rightarrow> JavaMethod" where
  "exMethod n =
     \<lparr> JavaMethod.Name = n, Annotations = [], Parameters = [], ReturnType = ''void'',
       Line = 1, Column = 0, Body = [], IsPublic = False, IsPrivate = False,
       IsProtected = False, IsStatic = False \<rparr>"

definition exClass :: "string list \<Rightarrow> JavaMethod list \<Rightarrow> JavaClass" where
  "exClass anns mths =
     \<lparr> JavaClass.Name = ''A'', Annotations = anns, Methods = mths, Fields = [], Imports = [],
       Package = [] \<rparr>"

definition exFile :: "string \<Rightarrow> AST \<Rightarrow> ParsedFile" where
  "exFile c a =
     \<lparr> Path = ''A.java'', Language = ''java'', Content = c, Lines = SplitLines c, Tokens = [],
       AST = a \<rparr>"

definition exConfig :: RuleConfig where
  "exConfig =
     \<lparr> RuleConfig.ID = ''rule'', Name = ''rule'', Severity = ''high'', Category = ''quality'',
       Description = [], Enabled = True \<rparr>"

text \<open>A method with eleven \<open>if\<close> statements, none nested.\<close>

definition exElevenIfs :: string where
  "exElevenIfs =
     ''void f(){if(a);if(a);if(a);if(a);if(a);if(a);if(a);if(a);if(a);if(a);if(a);}''"


text \<open>The Korean syllable \<open>U+D55C\<close>, three bytes in UTF-8.\<close>

definition exHan :: string where
  "exHan = [CHR 0xED, CHR 0x95, CHR 0x9C]"

text \<open>The method of the example for this rule in \<open>RULE_ANALYSIS.md\<close>, which the
  document scores with 11 (one for each \<open>if\<close>, \<open>else if\<close> and \<open>else\<close>); the comments
  are left out.\<close>

definition exOrderProcessor :: string where
  "exOrderProcessor = Join
     [''public class OrderProcessor {'',
      ''    public void processOrder(Order order) {'',
      ''        if (order != null) {'',
      ''            if (order.getStatus() == PENDING) {'',
      ''                if (order.getAmount() > 100) {'',
      ''                    if (order.getCustomer().isPremium()) {'',
      ''                    } else {'',
      ''                    }'',
      ''                } else if (order.getAmount() > 50) {'',
      ''                } else {'',
      ''                }'',
      ''            } else if (order.getStatus() == PROCESSING) {'',
      ''            } else if (order.getStatus() == COMPLETED) {'',
      ''            } else {'',
      ''            }'',
      ''        }'',
      ''    }'',
      ''}''] [newline]"

text \<open>Six lines, each the line before with another name.\<close>

definition exRenamedLines :: "string list" where
  "exRenamedLines = [''a = 1;'', ''b = 1;'', ''c = 1;'', ''d = 1;'', ''e = 1;'', ''f = 1;'']"


text \<open>Six lines, each a block comment.\<close>

definition exCommentLines :: "string list" where
  "exCommentLines = replicate 6 ''/* c */''"

section \<open>Properties: bytes and case\<close>

lemma byte_nat: "byte c = int (of_char c)"
  by (simp add: byte_def of_nat_of_char)

lemma byte_ge_0 [simp]: "0 \<le> byte c"
  by (simp add: byte_nat)

lemma byte_lt_256 [simp]: "byte c < 256"
  by (simp add: byte_nat)

lemma byte_char_of [simp]: "0 \<le> n \<Longrightarrow> n < 256 \<Longrightarrow> byte (char_of n) = n"
  by (simp add: byte_def)

lemma char_of_byte [simp]: "char_of (byte c) = c"
  by (simp add: byte_def)

lemma byte_foldByte: "byte (foldByte c) = lowerASCII (byte c)"
  using byte_lt_256 [of c] by (auto simp: foldByte_def lowerASCII_def)

lemma foldByte_high [simp]: "0x80 \<le> byte c \<Longrightarrow> foldByte c = c"
  by (simp add: foldByte_def lowerASCII_def)

lemma foldByte_idem [simp]: "foldByte (foldByte c) = foldByte c"
proof -
  have "lowerASCII (lowerASCII (byte c)) = lowerASCII (byte c)"
    by (simp add: lowerASCII_def)
  then show ?thesis
    by (metis byte_foldByte foldByte_def)
qed

lemma ToLower_ascii: "list_all (\<lambda>c. byte c < 0x80) s \<Longrightarrow> ToLower L s = foldASCII s"
  by (simp add: ToLower_def foldASCII_def foldByte_def)

lemma foldASCII_alt: "foldASCII s = map foldByte s"
  by (simp add: foldASCII_def)

lemma firstInfo_lo: "firstInfo b = Some (sz, lo, hi) \<Longrightarrow> 0x80 \<le> lo \<and> 2 \<le> sz \<and> sz \<le> 4"
  by (auto simp: firstInfo_def split: if_splits)

lemma lowerASCII_range: "0x80 \<le> lo \<Longrightarrow> (lowerASCII b < lo \<or> hi < lowerASCII b) = (b < lo \<or> hi < b)"
  by (auto simp: lowerASCII_def)

lemma lowerASCII_cont: "isCont (lowerASCII b) = isCont b"
  by (auto simp: lowerASCII_def isCont_def)

lemma lowerASCII_keep: "0x80 \<le> b \<Longrightarrow> lowerASCII b = b"
  by (auto simp: lowerASCII_def)

lemma decode_fold_high:
  assumes "0x80 \<le> byte c"
  shows "decodeRune (c # map foldByte s) = decodeRune (c # s)"
proof (cases "firstInfo (byte c)")
  case None
  then show ?thesis using assms by simp
next
  case (Some t)
  obtain sz lo hi where t: "t = (sz, lo, hi)" by (cases t)
  from firstInfo_lo [of "byte c" sz lo hi] Some t
  have lo: "0x80 \<le> lo" and sz: "2 \<le> sz" "sz \<le> 4" by auto
  have r: "\<And>b. (lowerASCII b < lo \<or> hi < lowerASCII b) = (b < lo \<or> hi < b)"
    by (rule lowerASCII_range [OF lo])
  have e: "\<And>b. isCont b \<Longrightarrow> lowerASCII b = b"
    by (simp add: lowerASCII_keep isCont_def)
  have e1: "\<And>b. \<not> b < lo \<Longrightarrow> lowerASCII b = b"
    using lo by (simp add: lowerASCII_keep)
  have nth_fold: "\<And>i. i < length s \<Longrightarrow> byte (map foldByte s ! i) = lowerASCII (byte (s ! i))"
    by (simp add: byte_foldByte)
  have len: "length (map foldByte s) = length s" by simp
  show ?thesis
  proof (cases "length s < sz - 1")
    case True
    then show ?thesis using assms Some t by (simp add: Let_def)
  next
    case False
    then have l0: "0 < length s" using sz by (cases s) auto
    show ?thesis
    proof (cases "byte (s ! 0) < lo \<or> hi < byte (s ! 0)")
      case True
      then have "byte (map foldByte s ! 0) < lo \<or> hi < byte (map foldByte s ! 0)"
        using nth_fold [OF l0] r by simp
      then show ?thesis using assms Some t False True
        by (simp add: Let_def del: nth_map)
    next
      case b1: False
      then have b1': "byte (map foldByte s ! 0) = byte (s ! 0)"
        using nth_fold [OF l0] e1 by simp
      show ?thesis
      proof (cases "sz = 2")
        case True
        then show ?thesis using assms Some t False b1 b1'
          by (simp add: Let_def del: nth_map)
      next
        case s2: False
        then have l1: "1 < length s" using False sz by simp
        have c2: "isCont (byte (map foldByte s ! 1)) = isCont (byte (s ! 1))"
          using nth_fold [OF l1] by (simp add: lowerASCII_cont)
        show ?thesis
        proof (cases "isCont (byte (s ! 1))")
          case False
          then show ?thesis using assms Some t \<open>\<not> length s < sz - 1\<close> b1 b1' s2 c2
            by (simp add: Let_def del: nth_map)
        next
          case b2: True
          then have b2': "byte (map foldByte s ! 1) = byte (s ! 1)"
            using nth_fold [OF l1] e by simp
          show ?thesis
          proof (cases "sz = 3")
            case True
            then show ?thesis using assms Some t \<open>\<not> length s < sz - 1\<close> b1 b1' s2 c2 b2 b2'
              by (simp add: Let_def del: nth_map)
          next
            case s3: False
            then have l2: "2 < length s" using \<open>\<not> length s < sz - 1\<close> sz s2 by simp
            have c3: "isCont (byte (map foldByte s ! 2)) = isCont (byte (s ! 2))"
              using nth_fold [OF l2] by (simp add: lowerASCII_cont)
            have b3': "isCont (byte (s ! 2)) \<Longrightarrow> byte (map foldByte s ! 2) = byte (s ! 2)"
              using nth_fold [OF l2] e by simp
            show ?thesis using assms Some t \<open>\<not> length s < sz - 1\<close> b1 b1' s2 c2 b2 b2' s3 c3 b3'
              by (simp add: Let_def del: nth_map)
          qed
        qed
      qed
    qed
  qed
qed

lemma decode_fold_low:
  assumes "byte c < 0x80"
  shows "decodeRune (foldByte c # s) = (lowerASCII (byte c), 1)"
  using assms by (simp add: byte_foldByte lowerASCII_def)

lemma runes_fold: "map (unicodeToLower L) (runes (map foldByte s)) = map (unicodeToLower L) (runes s)"
proof (induction s rule: runes.induct)
  case 1
  then show ?case by simp
next
  case (2 c s)
  show ?case
  proof (cases "byte c < 0x80")
    case True
    then show ?thesis using 2 decode_fold_low [OF True]
      by (simp add: runeWidth_def unicodeToLower_def lowerASCII_def drop_map)
  next
    case False
    then have h: "0x80 \<le> byte c" by simp
    show ?thesis using 2 decode_fold_high [OF h] h
      by (simp add: runeWidth_def drop_map)
  qed
qed

lemma ToLower_fold: "ToLower L (foldASCII s) = ToLower L s"
proof -
  have a: "list_all (\<lambda>c. byte c < 0x80) (map foldByte s) = list_all (\<lambda>c. byte c < 0x80) s"
    by (induction s) (auto simp: byte_foldByte lowerASCII_def)
  show ?thesis
    using a runes_fold [of L s]
    by (auto simp: ToLower_def foldASCII_alt foldByte_def [symmetric] comp_def)
qed

text \<open>
  Claim C10. Parsing a severity undoes printing it for the four severities; two texts
  that differ only in the case of their ASCII letters parse alike; and a text whose
  lower-case form is none of the four names parses as \<open>SeverityLow\<close>. This holds
  for every case table of the runes beyond ASCII.
\<close>

theorem ParseSeverity_roundtrip:
  "(\<forall>v \<in> {SeverityLow, SeverityMedium, SeverityHigh, SeverityCritical}.
      ParseSeverity L (Severity_String v) = v)
   \<and> (\<forall>s t. foldASCII s = foldASCII t \<longrightarrow> ParseSeverity L s = ParseSeverity L t)
   \<and> (\<forall>s. ToLower L s \<notin> set severityNames \<longrightarrow> ParseSeverity L s = SeverityLow)"
proof (intro conjI ballI allI impI)
  fix v :: Severity
  assume v: "v \<in> {SeverityLow, SeverityMedium, SeverityHigh, SeverityCritical}"
  have "ToLower L ''low'' = ''low''" "ToLower L ''medium'' = ''medium''"
    "ToLower L ''high'' = ''high''" "ToLower L ''critical'' = ''critical''"
    by (subst ToLower_ascii, code_simp, code_simp)+
  with v show "ParseSeverity L (Severity_String v) = v"
    by (auto simp: ParseSeverity_def Severity_String_def
          SeverityLow_def SeverityMedium_def SeverityHigh_def SeverityCritical_def)
next
  fix s t :: string
  assume "foldASCII s = foldASCII t"
  then have "ToLower L s = ToLower L t"
    by (metis ToLower_fold)
  then show "ParseSeverity L s = ParseSeverity L t"
    by (simp add: ParseSeverity_def)
next
  fix s
  assume "ToLower L s \<notin> set severityNames"
  then show "ParseSeverity L s = SeverityLow"
    by (simp add: ParseSeverity_def severityNames_def)
qed

theorem ParseSeverity_roundtrip_witness:
  "ParseSeverity (\<lambda>r. r) (Severity_String SeverityCritical) = SeverityCritical
   \<and> ParseSeverity (\<lambda>r. r) ''HiGh'' = ParseSeverity (\<lambda>r. r) ''high''
   \<and> ParseSeverity (\<lambda>r. r) ''severe'' = SeverityLow"
proof -
  have a: "SeverityCritical \<in> {SeverityLow, SeverityMedium, SeverityHigh, SeverityCritical}"
    by simp
  have b: "foldASCII ''HiGh'' = foldASCII ''high''"
    by code_simp
  have c: "ToLower (\<lambda>r. r) ''severe'' \<notin> set severityNames"
    by code_simp
  show ?thesis
    using ParseSeverity_roundtrip [of "\<lambda>r. r"] a b c by blast
qed

section \<open>Properties: the cyclomatic-complexity rule\<close>

lemma countBranches_sum:
  "countBranches ps body c = c + sum_list (map (\<lambda>pattern. int (length (FindAllString pattern body))) ps)"
  by (induction ps arbitrary: c) auto


lemma extractMethodBody_valid:
  "validUTF8 (JavaMethod.Name m) \<Longrightarrow> extractMethodBody file m = Inr (bodyOf file m)"
  by (auto simp: extractMethodBody_def bodyOf_def Let_def split: option.splits prod.splits)

lemma calculateComplexity_spec:
  "validUTF8 (JavaMethod.Name m) \<Longrightarrow> calculateComplexity file m = Inr (specScore (bodyOf file m))"
  by (simp add: calculateComplexity_def extractMethodBody_valid specScore_def countBranches_sum)

lemma complexityLoop_spec:
  "\<forall>m \<in> set mths. validUTF8 (JavaMethod.Name m) \<Longrightarrow>
   complexityLoop L config file mths issues =
     Inr (issues @ concat (map (\<lambda>m. if 10 < specScore (bodyOf file m)
                                      then [complexityIssue L config file m (specScore (bodyOf file m))]
                                      else []) mths))"
  by (induction mths arbitrary: issues) (auto simp: calculateComplexity_spec)

text \<open>
  Claim C1. For a file whose facts are a Java class (with method names that are UTF-8,
  so that the pattern compiles), the score of every method is the score of the
  specification for its extracted body: 1 for an empty body, else 1 plus the number of
  matches of each branch pattern. \<open>Check\<close> yields, in the order of the methods, exactly
  one finding for each method whose score exceeds 10 and none for the others, and the
  message of a finding holds the name of the method and the score.
\<close>

theorem CyclomaticComplexityRule_Check_scores:
  assumes "AST file = JavaAST javaClass"
    and "\<forall>m \<in> set (Methods javaClass). validUTF8 (JavaMethod.Name m)"
  shows "(\<forall>m \<in> set (Methods javaClass).
            calculateComplexity file m = Inr (specScore (bodyOf file m)))
         \<and> specScore [] = 1
         \<and> CyclomaticComplexityRule_Check L config file =
             Inr (concat (map (\<lambda>m. if 10 < specScore (bodyOf file m)
                                     then [complexityIssue L config file m (specScore (bodyOf file m))]
                                     else []) (Methods javaClass)))
         \<and> (\<forall>m c. Message (complexityIssue L config file m c) =
               ccMsg1 @ JavaMethod.Name m @ ccMsg2 @ Itoa c @ '')'')"
  using assms
  by (simp add: calculateComplexity_spec CyclomaticComplexityRule_Check_def complexityLoop_spec
        specScore_def complexityIssue_def complexityMessage_def)

theorem CyclomaticComplexityRule_Check_scores_witness:
  "CyclomaticComplexityRule_Check (\<lambda>r. r) exConfig
       (exFile exElevenIfs (JavaAST (exClass [] [exMethod ''f'']))) =
     Inr [complexityIssue (\<lambda>r. r) exConfig
            (exFile exElevenIfs (JavaAST (exClass [] [exMethod ''f'']))) (exMethod ''f'') 12]
   \<and> Message (complexityIssue (\<lambda>r. r) exConfig
            (exFile exElevenIfs (JavaAST (exClass [] [exMethod ''f'']))) (exMethod ''f'') 12) =
       ccMsg1 @ ''f'' @ ccMsg2 @ ''12'' @ '')''"
proof -
  let ?cls = "exClass [] [exMethod ''f'']"
  let ?file = "exFile exElevenIfs (JavaAST ?cls)"
  have a: "AST ?file = JavaAST ?cls"
    by (simp add: exFile_def)
  have b: "\<forall>m \<in> set (Methods ?cls). validUTF8 (JavaMethod.Name m)"
    by code_simp
  have c: "specScore (bodyOf ?file (exMethod ''f'')) = 12"
    by code_simp
  have d: "Itoa 12 = ''12''"
    by code_simp
  have e: "Methods ?cls = [exMethod ''f''] \<and> JavaMethod.Name (exMethod ''f'') = ''f''"
    by (simp add: exClass_def exMethod_def)
  show ?thesis
    using CyclomaticComplexityRule_Check_scores [OF a b, of "\<lambda>r. r" exConfig] c d e
    by simp
qed

section \<open>Properties: body extraction and multi-byte text\<close>

text \<open>
  Claim C4, at an input with a multi-byte character before the declaration. The
  declaration \<open>f(){\<close> matches at bytes 4 to 8, so the opening brace is byte 7 and the
  body by brace matching is the three bytes \<open>{a}\<close> from there, whose depth trace
  returns to 0 at its last character. \<open>extractMethodBody\<close> returns \<open>}}\<close>: it uses the
  byte offset 7 as an index into the runes, where the syllable counts once, not thrice.
\<close>

theorem extractMethodBody_multibyte_shift:
  "FindStringIndex (methodPattern ''f'') (exHan @ '' f(){a}}'') = Some (4, 8)
   \<and> take 3 (drop 7 (exHan @ '' f(){a}}'')) = ''{a}''
   \<and> depthTrace 0 ''{a}'' = [1, 1, 0]
   \<and> extractMethodBody (exFile (exHan @ '' f(){a}}'') NoAST) (exMethod ''f'') = Inr ''}}''"
  by code_simp

text \<open>
  Claim C5, at an input with a multi-byte character before the declaration. The brace
  opened by the declaration is never closed: the depth from it on stays above 0. Still
  \<open>extractMethodBody\<close> returns the non-empty text \<open>{}\<close>, since its scan starts two
  runes too far to the right.
\<close>

theorem extractMethodBody_multibyte_unbalanced:
  "FindStringIndex (methodPattern ''f'') (exHan @ '' f(){ {}'') = Some (4, 8)
   \<and> depthTrace 0 (drop 7 (exHan @ '' f(){ {}'')) = [1, 1, 2, 1]
   \<and> extractMethodBody (exFile (exHan @ '' f(){ {}'') NoAST) (exMethod ''f'') = Inr ''{}''"
  by code_simp

section \<open>Properties: annotation collection\<close>

lemma SplitLines_nonempty: "SplitLines s \<noteq> []"
  by (induction s) (auto split: list.splits)

lemma SplitLines_append: "SplitLines (a @ newline # b) = SplitLines a @ SplitLines b"
proof (induction a)
  case Nil
  then show ?case by simp
next
  case (Cons c a)
  then show ?case
    using SplitLines_nonempty [of a] by (auto split: list.splits)
qed

lemma HasPrefix_Nil [simp]: "HasPrefix [] (c # p) = False"
  by (simp add: HasPrefix_def)

lemma scanAnnotations_spec:
  "scanAnnotations ls acc =
     map TrimSpace (filter isAnnotationLine
        (rev (takeWhile (\<lambda>l. isAnnotationLine l \<or> isSkippedLine l) ls))) @ acc"
  by (induction ls arbitrary: acc)
     (auto simp: Let_def isAnnotationLine_def isSkippedLine_def)

lemma takeWhile_skip_blank:
  assumes "list_all (\<lambda>l. TrimSpace l = []) bs"
  shows "filter isAnnotationLine (rev (takeWhile (\<lambda>l. isAnnotationLine l \<or> isSkippedLine l) (xs @ bs @ ys)))
       = filter isAnnotationLine (rev (takeWhile (\<lambda>l. isAnnotationLine l \<or> isSkippedLine l) (xs @ ys)))"
proof -
  let ?P = "\<lambda>l. isAnnotationLine l \<or> isSkippedLine l"
  have b1: "\<forall>l \<in> set bs. ?P l" "filter isAnnotationLine bs = []"
    using assms by (auto simp: list_all_iff isSkippedLine_def isAnnotationLine_def filter_empty_conv)
  have b2: "filter isAnnotationLine (rev bs) = []"
    using b1(2) by (metis rev_filter rev.simps(1))
  show ?thesis
  proof (cases "\<forall>l \<in> set xs. ?P l")
    case True
    then have "takeWhile ?P (xs @ bs @ ys) = xs @ bs @ takeWhile ?P ys"
      "takeWhile ?P (xs @ ys) = xs @ takeWhile ?P ys"
      using b1(1) by (simp_all add: takeWhile_append2)
    then show ?thesis using b2 by simp
  next
    case False
    then have "takeWhile ?P (xs @ bs @ ys) = takeWhile ?P xs"
      "takeWhile ?P (xs @ ys) = takeWhile ?P xs"
      by (metis takeWhile_append1 takeWhile_eq_all_conv takeWhile_append2 set_takeWhileD)+
    then show ?thesis by simp
  qed
qed

text \<open>
  Claim C8. For an offset inside the text, \<open>extractAnnotations\<close> returns the
  annotations of the specification for the lines before the offset: going up from the
  last line, annotation lines are collected in the order of the text, blank and comment
  lines are passed over, and any other line ends the scan. Inserting blank lines at a
  line break before the anchor (which moves the anchor by their length) changes neither
  the annotations collected nor their order.
\<close>

theorem extractAnnotations_blank_lines:
  "(0 \<le> pos \<and> pos \<le> int (length content) \<longrightarrow>
      extractAnnotations content pos = Inr (specAnnotations (SplitLines (take (nat pos) content))))
   \<and> (blankLines ws \<longrightarrow>
        extractAnnotations (pre @ [newline] @ ws @ [newline] @ post)
            (int (length pre + 1 + length ws + 1 + k)) =
          extractAnnotations (pre @ [newline] @ post) (int (length pre + 1 + k)))"
proof (intro conjI impI)
  assume "0 \<le> pos \<and> pos \<le> int (length content)"
  then show "extractAnnotations content pos = Inr (specAnnotations (SplitLines (take (nat pos) content)))"
    by (simp add: extractAnnotations_def scanAnnotations_spec specAnnotations_def)
next
  assume ws: "blankLines ws"
  show "extractAnnotations (pre @ [newline] @ ws @ [newline] @ post)
            (int (length pre + 1 + length ws + 1 + k)) =
          extractAnnotations (pre @ [newline] @ post) (int (length pre + 1 + k))"
  proof (cases "k \<le> length post")
    case False
    then show ?thesis by (simp add: extractAnnotations_def)
  next
    case True
    have t1: "take (nat (int (length pre + 1 + length ws + 1 + k)))
                 (pre @ [newline] @ ws @ [newline] @ post)
                = pre @ newline # ws @ newline # take k post"
      by (simp only: nat_int) simp
    have t2: "take (nat (int (length pre + 1 + k))) (pre @ [newline] @ post)
                = pre @ newline # take k post"
      by (simp only: nat_int) simp
    have s1: "SplitLines (pre @ newline # ws @ newline # take k post)
                = SplitLines pre @ SplitLines ws @ SplitLines (take k post)"
      by (simp add: SplitLines_append)
    have s2: "SplitLines (pre @ newline # take k post) = SplitLines pre @ SplitLines (take k post)"
      by (simp add: SplitLines_append)
    have bl: "list_all (\<lambda>l. TrimSpace l = []) (rev (SplitLines ws))"
      using ws by (simp add: blankLines_def)
    have sc: "scanAnnotations (rev (SplitLines pre @ SplitLines ws @ SplitLines (take k post))) []
            = scanAnnotations (rev (SplitLines pre @ SplitLines (take k post))) []"
      using takeWhile_skip_blank [OF bl, of "rev (SplitLines (take k post))" "rev (SplitLines pre)"]
      by (simp add: scanAnnotations_spec)
    have l1: "\<not> (int (length pre + 1 + length ws + 1 + k) < 0
                 \<or> int (length (pre @ [newline] @ ws @ [newline] @ post))
                     < int (length pre + 1 + length ws + 1 + k))"
      using True by simp
    have l2: "\<not> (int (length pre + 1 + k) < 0
                 \<or> int (length (pre @ [newline] @ post)) < int (length pre + 1 + k))"
      using True by simp
    show ?thesis
      unfolding extractAnnotations_def
      by (simp only: l1 l2 if_False t1 t2 s1 s2 sc)
  qed
qed

theorem extractAnnotations_blank_lines_witness:
  "extractAnnotations (''@A'' @ [newline] @ ''void f() {'') 3 = Inr [''@A'']
   \<and> extractAnnotations (''@A'' @ [newline] @ ''  '' @ [newline] @ ''void f() {'') 6 = Inr [''@A'']"
proof -
  have a: "(0::int) \<le> 3 \<and> 3 \<le> int (length (''@A'' @ [newline] @ ''void f() {''))"
    by simp
  have b: "blankLines ''  ''"
    by code_simp
  have c: "specAnnotations (SplitLines (take (nat 3) (''@A'' @ [newline] @ ''void f() {''))) = [''@A'']"
    by code_simp
  note t = extractAnnotations_blank_lines [of 3 "''@A'' @ [newline] @ ''void f() {''" "''  ''" "''@A''" "''void f() {''" 0]
  have d: "extractAnnotations (''@A'' @ [newline] @ ''void f() {'') 3 = Inr [''@A'']"
    using t a c by simp
  have "extractAnnotations (''@A'' @ [newline] @ ''  '' @ [newline] @ ''void f() {'') 6
          = extractAnnotations (''@A'' @ [newline] @ ''void f() {'') 3"
    using t b by simp
  with d show ?thesis by simp
qed

section \<open>Properties: duplicate blocks\<close>

lemma collectBlocks_foldl:
  "collectBlocks lines i blocks = foldl (blockStep lines) blocks [i..<windowCount lines]"
proof (induction lines i blocks rule: collectBlocks.induct)
  case (1 lines i blocks)
  show ?case
  proof (cases "int i \<le> int (length lines) - blockSize")
    case True
    then have lt: "i < windowCount lines"
      by (simp add: windowCount_def)
    have bs: "(let block = normalizeBlock (take (nat blockSize) (drop i lines))
               in if block \<noteq> [] then appendLine blocks block (int i + 1) else blocks)
              = blockStep lines blocks i"
      by (simp add: blockStep_def windowKey_def Let_def)
    have "collectBlocks lines i blocks = collectBlocks lines (i + 1) (blockStep lines blocks i)"
      using True by (subst collectBlocks.simps) (simp only: bs if_True)
    also have "\<dots> = foldl (blockStep lines) (blockStep lines blocks i) [i + 1..<windowCount lines]"
      using 1 [OF True] by (simp only: bs)
    also have "\<dots> = foldl (blockStep lines) blocks [i..<windowCount lines]"
      using lt by (simp add: upt_conv_Cons)
    finally show ?thesis .
  next
    case False
    then have "\<not> i < windowCount lines"
      by (simp add: windowCount_def)
    then show ?thesis
      using False by (subst collectBlocks.simps) simp
  qed
qed

lemma lookupBlock_appendLine:
  "lookupBlock (appendLine blocks k n) k' =
     (if k' = k then lookupBlock blocks k @ [n] else lookupBlock blocks k')"
  by (induction blocks k n rule: appendLine.induct) (auto simp: lookupBlock_def)

lemma keys_appendLine: "fst ` set (appendLine blocks k n) = insert k (fst ` set blocks)"
  by (induction blocks k n rule: appendLine.induct) auto

lemma distinct_appendLine:
  "distinct (map fst blocks) \<Longrightarrow> distinct (map fst (appendLine blocks k n))"
proof (induction blocks k n rule: appendLine.induct)
  case (1 block n)
  then show ?case by simp
next
  case (2 k v rest block n)
  show ?case
  proof (cases "k = block")
    case True
    then show ?thesis using 2(2) by simp
  next
    case False
    have "k \<notin> fst ` set (appendLine rest block n)"
      using False 2(2) by (simp add: keys_appendLine)
    then show ?thesis
      using False 2 by simp
  qed
qed

lemma lookupBlock_foldl:
  "lookupBlock (foldl (blockStep lines) blocks xs) k =
     lookupBlock blocks k
       @ map (\<lambda>i. int i + 1) (filter (\<lambda>i. windowKey lines i = k \<and> k \<noteq> []) xs)"
  by (induction xs arbitrary: blocks) (auto simp: blockStep_def lookupBlock_appendLine)

lemma keys_foldl:
  "fst ` set (foldl (blockStep lines) blocks xs) =
     fst ` set blocks \<union> {windowKey lines i | i. i \<in> set xs \<and> windowKey lines i \<noteq> []}"
proof (induction xs arbitrary: blocks)
  case Nil
  then show ?case by simp
next
  case (Cons a xs)
  show ?case
    unfolding foldl.simps Cons
    by (auto simp: blockStep_def keys_appendLine)
qed

lemma distinct_foldl:
  "distinct (map fst blocks) \<Longrightarrow> distinct (map fst (foldl (blockStep lines) blocks xs))"
  by (induction xs arbitrary: blocks) (auto simp: blockStep_def distinct_appendLine)

lemma lookupBlock_Nil: "lookupBlock [] k = []"
  by (simp add: lookupBlock_def)

lemma lookupBlock_fileBlocks:
  "lookupBlock (fileBlocks file) k = (if k = [] then [] else keyGroup (Lines file) k)"
  by (simp add: fileBlocks_def collectBlocks_foldl lookupBlock_foldl keyGroup_def lookupBlock_Nil)

lemma keys_fileBlocks:
  "fst ` set (fileBlocks file) =
     {windowKey (Lines file) i | i. i < windowCount (Lines file) \<and> windowKey (Lines file) i \<noteq> []}"
  by (simp add: fileBlocks_def collectBlocks_foldl keys_foldl)

lemma reportBlocks_concat:
  "reportBlocks L config file blocks ks acc =
     acc @ concat (map (\<lambda>k. if 2 \<le> length (lookupBlock blocks k)
                              then map (\<lambda>n. duplicateIssue L config file n (int (length (lookupBlock blocks k))))
                                     (lookupBlock blocks k)
                              else []) ks)"
  by (induction ks arbitrary: acc) (auto simp: Let_def)

lemma length_filter_concat:
  "length (filter P (concat xss)) = sum_list (map (\<lambda>xs. length (filter P xs)) xss)"
  by (induction xss) auto

lemma sum_list_indicator:
  "distinct ks \<Longrightarrow> sum_list (map (\<lambda>k. if k = k0 then c else 0) ks) = (if k0 \<in> set ks then c else (0::nat))"
  by (induction ks) auto

lemma filter_eq_upt: "i < n \<Longrightarrow> filter (\<lambda>j. j = i) [0..<n] = [i]"
  by (induction n) (auto simp: filter_empty_conv less_Suc_eq)

lemma keyGroup_count:
  assumes "i < windowCount lines"
  shows "length (filter (\<lambda>n. n = int i + 1) (keyGroup lines k)) = (if windowKey lines i = k then 1 else 0)"
proof -
  have "filter (\<lambda>n. n = int i + 1) (keyGroup lines k)
          = map (\<lambda>j. int j + 1) (filter (\<lambda>j. j = i \<and> windowKey lines j = k) [0..<windowCount lines])"
    by (simp add: keyGroup_def filter_map comp_def conj_commute)
  also have "filter (\<lambda>j. j = i \<and> windowKey lines j = k) [0..<windowCount lines]
          = (if windowKey lines i = k then filter (\<lambda>j. j = i) [0..<windowCount lines] else [])"
    by (auto intro: filter_cong simp: filter_empty_conv)
  also have "filter (\<lambda>j. j = i) [0..<windowCount lines] = [i]"
    using assms by (rule filter_eq_upt)
  finally show ?thesis by simp
qed

lemma duplicateIssue_fields:
  "Message (duplicateIssue L config file n c) = dupMsg1 @ Itoa c @ dupMsg2"
  "Issue.Line (duplicateIssue L config file n c) = n"
  by (simp_all add: duplicateIssue_def duplicateMessage_def)

lemma checkDuplicateBlocks_concat:
  assumes "validOrder (fileBlocks file) order"
  shows "checkDuplicateBlocks L config order file [] =
           concat (map (\<lambda>k. if 2 \<le> length (keyGroup (Lines file) k)
                               then map (\<lambda>n. duplicateIssue L config file n
                                                (int (length (keyGroup (Lines file) k))))
                                      (keyGroup (Lines file) k)
                               else []) order)"
proof -
  have "k \<noteq> []" if "k \<in> set order" for k
    using that assms keys_fileBlocks [of "file"] by (auto simp: validOrder_def)
  then have "\<forall>k \<in> set order. lookupBlock (fileBlocks file) k = keyGroup (Lines file) k"
    by (simp add: lookupBlock_fileBlocks)
  then show ?thesis
    unfolding checkDuplicateBlocks_def reportBlocks_concat append_Nil
    by (intro arg_cong [where f = concat] map_cong) auto
qed

lemma findings_per_line:
  assumes "validOrder (fileBlocks file) order" and "i < windowCount (Lines file)"
  shows "length (filter (\<lambda>f. Issue.Line f = int i + 1) (checkDuplicateBlocks L config order file []))
           = (if windowKey (Lines file) i \<noteq> []
                 \<and> 2 \<le> length (keyGroup (Lines file) (windowKey (Lines file) i)) then 1 else 0)"
proof -
  let ?ls = "Lines file"
  let ?k0 = "windowKey ?ls i"
  let ?c = "if 2 \<le> length (keyGroup ?ls ?k0) then 1 else 0 :: nat"
  let ?F = "\<lambda>k. if 2 \<le> length (keyGroup ?ls k)
                 then map (\<lambda>n. duplicateIssue L config file n (int (length (keyGroup ?ls k))))
                        (keyGroup ?ls k)
                 else []"
  have one: "length (filter (\<lambda>f. Issue.Line f = int i + 1) (?F k)) = (if k = ?k0 then ?c else 0)" for k
    using keyGroup_count [OF assms(2), of k]
    by (auto simp: filter_map comp_def duplicateIssue_fields)
  have d: "distinct order"
    using assms(1) by (simp add: validOrder_def)
  have mem: "?k0 \<in> set order \<longleftrightarrow> ?k0 \<noteq> []"
    using assms keys_fileBlocks [of "file"] by (auto simp: validOrder_def)
  have "length (filter (\<lambda>f. Issue.Line f = int i + 1) (checkDuplicateBlocks L config order file []))
          = sum_list (map (\<lambda>k. if k = ?k0 then ?c else 0) order)"
    unfolding checkDuplicateBlocks_concat [OF assms(1)] length_filter_concat map_map comp_def one ..
  also have "\<dots> = (if ?k0 \<in> set order then ?c else 0)"
    using d by (rule sum_list_indicator)
  finally show ?thesis
    using mem by simp
qed

lemma findings_origin:
  assumes "validOrder (fileBlocks file) order"
    and "f \<in> set (checkDuplicateBlocks L config order file [])"
  shows "\<exists>i < windowCount (Lines file). windowKey (Lines file) i \<noteq> []
           \<and> 2 \<le> length (keyGroup (Lines file) (windowKey (Lines file) i))
           \<and> f = duplicateIssue L config file (int i + 1)
                   (int (length (keyGroup (Lines file) (windowKey (Lines file) i))))"
proof -
  from assms(2) obtain k n where k: "k \<in> set order" "2 \<le> length (keyGroup (Lines file) k)"
    and n: "n \<in> set (keyGroup (Lines file) k)"
    and f: "f = duplicateIssue L config file n (int (length (keyGroup (Lines file) k)))"
    unfolding checkDuplicateBlocks_concat [OF assms(1)]
    by (auto split: if_splits)
  have "k \<noteq> []"
    using k(1) assms(1) keys_fileBlocks [of "file"] by (auto simp: validOrder_def)
  from n obtain i where "i < windowCount (Lines file)" "windowKey (Lines file) i = k" "n = int i + 1"
    by (auto simp: keyGroup_def)
  with k f \<open>k \<noteq> []\<close> show ?thesis
    by auto
qed

section \<open>Properties: decoding\<close>

lemma firstInfo_Some: "firstInfo b = Some (sz, lo, hi) \<Longrightarrow> 0x80 \<le> lo \<and> 2 \<le> sz \<and> sz \<le> 4 \<and> 0xC2 \<le> b"
  by (auto simp: firstInfo_def split: if_splits)

lemma runeWidth_bounds: "1 \<le> runeWidth (c # s) \<and> runeWidth (c # s) \<le> length (c # s)"
proof (cases "firstInfo (byte c)")
  case None
  then show ?thesis by (simp add: runeWidth_def Let_def)
next
  case (Some t)
  obtain sz lo hi where t: "t = (sz, lo, hi)" by (cases t)
  from firstInfo_Some [of "byte c" sz lo hi] Some t
  have sz: "2 \<le> sz" "sz \<le> 4" by auto
  show ?thesis
    using Some t sz by (auto simp: runeWidth_def Let_def Suc_le_eq)
qed

lemma runeWidth_pos [simp]: "0 < runeWidth (c # s)"
  using runeWidth_bounds [of c s] by simp

lemma runeWidth_ne0 [simp]: "runeWidth (c # s) \<noteq> 0"
  using runeWidth_bounds [of c s] by simp

lemma runeWidth_le: "runeWidth (c # s) - 1 \<le> length s"
  using runeWidth_bounds [of c s] by (cases "runeWidth (c # s)") auto

lemma runeWidth_ascii [simp]: "byte c < 0x80 \<Longrightarrow> runeWidth (c # s) = 1"
  by (simp add: runeWidth_def)

lemma byte_eq_iff [simp]: "byte c = byte d \<longleftrightarrow> c = d"
  by (simp add: byte_def)

text \<open>A rune decoded from a byte beyond ASCII is beyond ASCII.\<close>

lemma mod_facts:
  fixes b :: int
  shows "194 \<le> b \<Longrightarrow> b \<le> 223 \<Longrightarrow> 2 \<le> b mod 32"
    and "160 \<le> b \<Longrightarrow> b \<le> 191 \<Longrightarrow> 32 \<le> b mod 64"
    and "225 \<le> b \<Longrightarrow> b \<le> 239 \<Longrightarrow> 1 \<le> b mod 16"
    and "144 \<le> b \<Longrightarrow> b \<le> 191 \<Longrightarrow> 16 \<le> b mod 64"
    and "241 \<le> b \<Longrightarrow> b \<le> 244 \<Longrightarrow> 1 \<le> b mod 8"
    and "0 \<le> b mod 64"
  by presburger+

lemma decodeRune_high:
  assumes "0x80 \<le> byte c"
  shows "0x80 \<le> fst (decodeRune (c # s))"
proof (cases "firstInfo (byte c)")
  case None
  then show ?thesis using assms by (simp add: RuneError_def)
next
  case (Some t)
  obtain sz lo hi where t: "t = (sz, lo, hi)" by (cases t)
  note m = mod_facts [of "byte c"] mod_facts [of "byte (s ! 0)"] mod_facts(6) [of "byte (s ! 1)"]
    mod_facts(6) [of "byte (s ! 2)"]
  show ?thesis
    using assms Some t m
    apply (simp add: Let_def RuneError_def isCont_def)
    apply (auto simp: firstInfo_def split: if_splits)
    done
qed

declare decodeRune.simps(2) [simp del]

lemma decodeRune_ascii_simp [simp]: "byte c < 0x80 \<Longrightarrow> decodeRune (c # s) = (byte c, 1)"
  by (simp add: decodeRune.simps)

section \<open>Properties: the matcher\<close>

lemma isWordRune_high: "0x80 \<le> r \<Longrightarrow> \<not> isWordRune r"
  by (simp add: isWordRune_def inRanges_def wordRanges_def)

lemma decodeRune_last_high:
  assumes "0x80 \<le> byte c"
  shows "0x80 \<le> byte ((c # s) ! (runeWidth (c # s) - 1))"
proof (cases "firstInfo (byte c)")
  case None
  then show ?thesis using assms by (simp add: runeWidth_def decodeRune.simps)
next
  case (Some t)
  obtain sz lo hi where t: "t = (sz, lo, hi)" by (cases t)
  from firstInfo_Some [of "byte c" sz lo hi] Some t
  have lo: "0x80 \<le> lo" by auto
  show ?thesis
    using assms Some t lo
    by (auto simp: runeWidth_def Let_def isCont_def decodeRune.simps)
qed

text \<open>The word context after the first rune, read from the rune or from its last byte.\<close>

lemma ctx_after_rune:
  "isWordRune (fst (decodeRune (c # t))) = ctxAt w (c # t) (runeWidth (c # t))"
proof (cases "byte c < 0x80")
  case True
  then show ?thesis by (simp add: ctxAt_def)
next
  case False
  then have h: "0x80 \<le> byte c" by simp
  have "\<not> isWordRune (fst (decodeRune (c # t)))"
    using decodeRune_high [OF h] by (rule isWordRune_high)
  moreover have "\<not> isWordRune (byte ((c # t) ! (runeWidth (c # t) - 1)))"
    using decodeRune_last_high [OF h] by (rule isWordRune_high)
  ultimately show ?thesis
    using runeWidth_pos [of c t] by (simp add: ctxAt_def)
qed

lemma reach_refl: "reach w s (w, s)"
  by (auto simp: reach_def ctxAt_def intro: exI [of _ 0])

lemma ctxAt_add:
  assumes "k \<le> length s" "j \<le> length (drop k s)"
  shows "ctxAt (ctxAt w s k) (drop k s) j = ctxAt w s (k + j)"
proof (cases "j = 0")
  case True
  then show ?thesis by (simp add: ctxAt_def)
next
  case False
  then have "drop k s ! (j - 1) = s ! (k + j - 1)"
    using assms by (simp add: nth_drop)
  then show ?thesis using False by (simp add: ctxAt_def)
qed

lemma reach_trans:
  assumes "reach w s z1" "reach (fst z1) (snd z1) z2"
  shows "reach w s z2"
proof -
  from assms(1) obtain k where k: "k \<le> length s" "snd z1 = drop k s" "fst z1 = ctxAt w s k"
    "k = 0 \<or> runeWidth s \<le> k"
    by (auto simp: reach_def)
  from assms(2) k obtain j where j: "j \<le> length (drop k s)" "snd z2 = drop j (drop k s)"
    "fst z2 = ctxAt (ctxAt w s k) (drop k s) j" "j = 0 \<or> runeWidth (drop k s) \<le> j"
    by (auto simp: reach_def)
  have "k + j \<le> length s" using k(1) j(1) by simp
  moreover have "snd z2 = drop (k + j) s" using j(2) by (simp add: add.commute)
  moreover have "fst z2 = ctxAt w s (k + j)" using j(3) ctxAt_add [OF k(1) j(1)] by simp
  moreover have "k + j = 0 \<or> runeWidth s \<le> k + j" using k(4) j(4) by auto
  ultimately show ?thesis unfolding reach_def by blast
qed

lemma stepRune_reach:
  assumes "z' \<in> set (stepRune P (w, s))"
  shows "reach w s z' \<and> length (snd z') < length s"
proof (cases s)
  case Nil
  then show ?thesis using assms by (simp add: stepRune_def)
next
  case (Cons c t)
  let ?n = "runeWidth (c # t)"
  from assms Cons have z': "z' = (isWordRune (fst (decodeRune (c # t))), drop (?n - 1) t)"
    by (auto simp: stepRune_def split: if_splits)
  have n: "1 \<le> ?n" "?n \<le> length (c # t)"
    using runeWidth_bounds [of c t] by auto
  have d: "drop (?n - 1) t = drop ?n (c # t)"
    using n(1) by (cases ?n) auto
  have "reach w (c # t) z'"
    unfolding reach_def
    using n d z' ctx_after_rune [of c t w] by (intro exI [of _ ?n]) simp
  moreover have "length (snd z') < length (c # t)"
    using z' n d by simp
  ultimately show ?thesis using Cons by simp
qed

lemma reach_length: "reach w s z \<Longrightarrow> length (snd z) \<le> length s"
  by (auto simp: reach_def)

lemma star_reach:
  assumes "\<And>z z'. z' \<in> set (g z) \<Longrightarrow> reach (fst z) (snd z) z'"
  shows "z' \<in> set (star g n z) \<Longrightarrow> reach (fst z) (snd z) z'"
proof (induction n arbitrary: z z')
  case 0
  then have "z' = z" by simp
  then show ?case using reach_refl [of "fst z" "snd z"] by simp
next
  case (Suc n)
  from Suc.prems consider "z' = z"
    | z1 where "z1 \<in> set (g z)" "z' \<in> set (star g n z1)"
    by (auto split: if_splits)
  then show ?case
  proof cases
    case 1
    then show ?thesis using reach_refl [of "fst z" "snd z"] by simp
  next
    case 2
    then show ?thesis
      using assms [of z1 z] Suc.IH [of z' z1] reach_trans by blast
  qed
qed

lemma matchEnds_reach: "z' \<in> set (matchEnds r z) \<Longrightarrow> reach (fst z) (snd z) z'"
proof (induction r arbitrary: z z')
  case (Cls rs)
  then show ?case using stepRune_reach [of z' _ "fst z" "snd z"] by simp
next
  case (NCls rs)
  then show ?case using stepRune_reach [of z' _ "fst z" "snd z"] by simp
next
  case (Cat a b)
  from Cat.prems obtain z1 where z1: "z1 \<in> set (matchEnds a z)" "z' \<in> set (matchEnds b z1)"
    by auto
  show ?case
    using Cat.IH(1) [OF z1(1)] Cat.IH(2) [OF z1(2)] by (rule reach_trans)
next
  case (Alt a b)
  from Alt.prems have "z' \<in> set (matchEnds a z) \<or> z' \<in> set (matchEnds b z)"
    by simp
  then show ?case
    using Alt.IH(1) [of z' z] Alt.IH(2) [of z' z] by blast
next
  case (Star a)
  then show ?case using star_reach [of "matchEnds a"] by simp
next
  case WordB
  then have "z' = z" by (simp split: if_splits)
  then show ?case using reach_refl [of "fst z" "snd z"] by simp
next
  case Eps
  then have "z' = z" by simp
  then show ?case using reach_refl [of "fst z" "snd z"] by simp
qed

lemma matchEnds_consuming:
  "consuming r \<Longrightarrow> z' \<in> set (matchEnds r z) \<Longrightarrow> length (snd z') < length (snd z)"
proof (induction r arbitrary: z z')
  case (Cls rs)
  then show ?case using stepRune_reach [of z' _ "fst z" "snd z"] by simp
next
  case (NCls rs)
  then show ?case using stepRune_reach [of z' _ "fst z" "snd z"] by simp
next
  case (Cat a b)
  from Cat.prems(2) obtain z1 where z1: "z1 \<in> set (matchEnds a z)" "z' \<in> set (matchEnds b z1)"
    by auto
  have l1: "length (snd z1) \<le> length (snd z)"
    using matchEnds_reach [OF z1(1)] by (rule reach_length)
  have l2: "length (snd z') \<le> length (snd z1)"
    using matchEnds_reach [OF z1(2)] by (rule reach_length)
  from Cat.prems(1) show ?case
    using Cat.IH(1) [OF _ z1(1)] Cat.IH(2) [OF _ z1(2)] l1 l2 by auto
next
  case (Alt a b)
  from Alt.prems(2) have "z' \<in> set (matchEnds a z) \<or> z' \<in> set (matchEnds b z)"
    by simp
  then show ?case
    using Alt.IH(1) [of z' z] Alt.IH(2) [of z' z] Alt.prems(1) by auto
qed auto

section \<open>Properties: the search\<close>

lemma search_hit:
  "matchEnds r (w, s) = z # zs \<Longrightarrow> search r w s = Some (0, length s - length (snd z))"
  by (cases s) auto

lemma search_skip:
  "matchEnds r (w, c # t) = [] \<Longrightarrow>
   search r w (c # t) =
     map_option (\<lambda>m. (runeWidth (c # t) + fst m, snd m))
       (search r (isWordRune (fst (decodeRune (c # t)))) (drop (runeWidth (c # t) - 1) t))"
  using runeWidth_bounds [of c t] by (auto split: option.splits simp: max_def)

declare search.simps [simp del]

lemma drop_rune: "drop (runeWidth (c # t) - 1) t = drop (runeWidth (c # t)) (c # t)"
  using runeWidth_bounds [of c t] by (cases "runeWidth (c # t)") auto

text \<open>What a successful search returns: a match inside the text that ends, if it is
  not empty at the start, behind the first rune.\<close>

lemma search_bounds:
  "search r w s = Some m \<Longrightarrow>
     fst m + snd m \<le> length s \<and> (fst m + snd m = 0 \<or> runeWidth s \<le> fst m + snd m)"
proof (induction r w s arbitrary: m rule: search.induct)
  case (1 r w)
  then show ?case by (auto simp: search.simps split: list.splits)
next
  case (2 r w c t)
  show ?case
  proof (cases "matchEnds r (w, c # t)")
    case (Cons z zs)
    then have "z \<in> set (matchEnds r (w, c # t))" by simp
    from matchEnds_reach [OF this] obtain k where k: "k \<le> length (c # t)" "snd z = drop k (c # t)"
      "k = 0 \<or> runeWidth (c # t) \<le> k"
      by (auto simp: reach_def)
    have "m = (0, length (c # t) - length (snd z))"
      using "2.prems" search_hit [OF Cons] by simp
    then have "fst m + snd m = k"
      using k(1,2) by simp
    then show ?thesis using k by simp
  next
    case Nil
    let ?n = "runeWidth (c # t)"
    from "2.prems" Nil obtain m' where
      m': "search r (isWordRune (fst (decodeRune (c # t)))) (drop (?n - 1) t) = Some m'"
      "m = (?n + fst m', snd m')"
      by (auto simp: search_skip [OF Nil])
    have n: "1 \<le> ?n" "?n \<le> length (c # t)"
      using runeWidth_bounds [of c t] by auto
    have "fst m' + snd m' \<le> length (drop (?n - 1) t)"
      using "2.IH" [OF Nil m'(1)] by simp
    then have "fst m + snd m \<le> length (c # t)"
      using m'(2) n by (simp add: drop_rune)
    then show ?thesis using m'(2) by simp
  qed
qed

lemma search_consuming:
  "consuming r \<Longrightarrow> search r w s = Some m \<Longrightarrow> 0 < snd m"
proof (induction r w s arbitrary: m rule: search.induct)
  case (1 r w)
  then show ?case
    using matchEnds_consuming [of r _ "(w, [])"] by (auto simp: search.simps split: list.splits)
next
  case (2 r w c t)
  show ?case
  proof (cases "matchEnds r (w, c # t)")
    case (Cons z zs)
    then have "z \<in> set (matchEnds r (w, c # t))" by simp
    then have "length (snd z) < length (c # t)"
      using matchEnds_consuming [OF "2.prems"(1)] by fastforce
    then show ?thesis using "2.prems" search_hit [OF Cons] by auto
  next
    case Nil
    then show ?thesis
      using "2.prems" "2.IH" [OF Nil "2.prems"(1)] by (auto simp: search_skip [OF Nil])
  qed
qed

section \<open>Properties: the loops over offsets and the recursions over the remaining text\<close>

lemma wordBefore_ctxAt:
  assumes "p \<le> length src" "k \<le> length (drop p src)" "0 < k"
  shows "wordBefore src (p + k) = ctxAt (wordBefore src p) (drop p src) k"
proof -
  have "drop p src ! (k - 1) = src ! (p + k - 1)"
    using assms by simp
  moreover have "p + k \<le> length src"
    using assms by simp
  ultimately show ?thesis
    using assms(3) by (simp add: wordBefore_def ctxAt_def)
qed

lemma allMatches_countFrom:
  "consuming r \<Longrightarrow> p \<le> length src \<Longrightarrow>
   length (allMatches r src p e) = countFrom r (wordBefore src p) (drop p src)"
proof (induction "length src - p" arbitrary: p e rule: less_induct)
  case less
  show ?case
  proof (cases "execAt r src p")
    case None
    then show ?thesis
      using less.prems
      by (subst allMatches.simps, subst countFrom.simps) (simp add: execAt_def)
  next
    case (Some m)
    then have s: "search r (wordBefore src p) (drop p src) = Some m"
      by (simp add: execAt_def)
    have pos: "0 < snd m"
      using search_consuming [OF less.prems(1) s] .
    have bnd: "fst m + snd m \<le> length (drop p src)"
      using search_bounds [OF s] by simp
    let ?q = "p + fst m + snd m"
    have q: "?q \<le> length src" "length src - ?q < length src - p"
      using bnd pos less.prems(2) by auto
    have ne: "\<not> emptyAtPos m"
      using pos by (simp add: emptyAtPos_def)
    have g: "length (drop (fst m + snd m) (drop p src)) < length (drop p src)"
      using bnd pos by simp
    have c: "wordBefore src ?q = ctxAt (wordBefore src p) (drop p src) (fst m + snd m)"
      using wordBefore_ctxAt [OF less.prems(2) bnd] pos by (simp add: add.assoc)
    have d: "drop ?q src = drop (fst m + snd m) (drop p src)"
      by (simp add: add.commute add.left_commute)
    have "length (allMatches r src p e) = Suc (length (allMatches r src ?q (int ?q)))"
      using less.prems(2) Some ne by (subst allMatches.simps) simp
    also have "\<dots> = Suc (countFrom r (wordBefore src ?q) (drop ?q src))"
      using less.hyps [OF q(2) less.prems(1) q(1)] by simp
    also have "\<dots> = countFrom r (wordBefore src p) (drop p src)"
      using s g by (subst (2) countFrom.simps) (simp add: c d)
    finally show ?thesis .
  qed
qed

lemma FindAllString_countFrom:
  "consuming r \<Longrightarrow> length (FindAllString r s) = countFrom r False s"
  using allMatches_countFrom [of r 0 s "- 1"]
  by (simp add: FindAllString_def FindAllStringIndex_def wordBefore_def)

lemma replaceAll_replaceFrom:
  "consuming r \<Longrightarrow> p \<le> length src \<Longrightarrow>
   replaceAll r src repl p p buf = buf @ replaceFrom r repl (wordBefore src p) (drop p src)"
proof (induction "length src - p" arbitrary: p buf rule: less_induct)
  case less
  show ?case
  proof (cases "execAt r src p")
    case None
    then show ?thesis
      using less.prems
      by (subst replaceAll.simps, subst replaceFrom.simps) (simp add: execAt_def)
  next
    case (Some m)
    then have s: "search r (wordBefore src p) (drop p src) = Some m"
      by (simp add: execAt_def)
    have pos: "0 < snd m"
      using search_consuming [OF less.prems(1) s] .
    have bnd: "fst m + snd m \<le> length (drop p src)"
      "runeWidth (drop p src) \<le> fst m + snd m"
      using search_bounds [OF s] pos by auto
    let ?q = "p + fst m + snd m"
    have q: "?q \<le> length src" "length src - ?q < length src - p"
      using bnd pos less.prems(2) by auto
    have g: "length (drop (fst m + snd m) (drop p src)) < length (drop p src)"
      using bnd pos by simp
    have c: "wordBefore src ?q = ctxAt (wordBefore src p) (drop p src) (fst m + snd m)"
      using wordBefore_ctxAt [OF less.prems(2) bnd(1)] pos by (simp add: add.assoc)
    have d: "drop ?q src = drop (fst m + snd m) (drop p src)"
      by (simp add: add.commute add.left_commute)
    have n: "nextSearchPos src p ?q = ?q"
      using bnd(2) pos by (simp add: nextSearchPos_def)
    have em: "emitMatch src repl p (p + fst m) ?q = take (fst m) (drop p src) @ repl"
      using pos by (simp add: emitMatch_def)
    have "replaceAll r src repl p p buf =
            replaceAll r src repl ?q ?q (buf @ take (fst m) (drop p src) @ repl)"
      using less.prems(2) Some by (subst replaceAll.simps) (simp add: n em)
    also have "\<dots> = (buf @ take (fst m) (drop p src) @ repl)
                      @ replaceFrom r repl (wordBefore src ?q) (drop ?q src)"
      using less.hyps [OF q(2) less.prems(1) q(1)] by simp
    also have "\<dots> = buf @ replaceFrom r repl (wordBefore src p) (drop p src)"
      using s g by (subst (2) replaceFrom.simps) (simp add: c d)
    finally show ?thesis .
  qed
qed

lemma ReplaceAllString_replaceFrom:
  "consuming r \<Longrightarrow> ReplaceAllString r src repl = replaceFrom r repl False src"
  using replaceAll_replaceFrom [of r 0 src repl "[]"]
  by (simp add: ReplaceAllString_def wordBefore_def)

section \<open>Properties: counting the matches of the branch patterns\<close>

lemma countFrom_Nil: "consuming r \<Longrightarrow> countFrom r w [] = 0"
  using search_consuming [of r w "[]"] search_bounds [of r w "[]"]
  by (subst countFrom.simps) (auto split: option.splits)

lemma countFrom_hit:
  assumes "matchEnds r (w, s) = z # zs" "consuming r"
  shows "countFrom r w s = Suc (countFrom r (fst z) (snd z))"
proof -
  have zin: "z \<in> set (matchEnds r (w, s))" using assms(1) by simp
  from matchEnds_reach [OF zin] obtain k where k: "k \<le> length s" "snd z = drop k s"
    "fst z = ctxAt w s k"
    by (auto simp: reach_def)
  have lt: "length (snd z) < length s"
    using matchEnds_consuming [OF assms(2) zin] by simp
  have l: "length s - length (snd z) = k"
    using k(1,2) by simp
  show ?thesis
    using search_hit [OF assms(1)] lt k(2,3) l
    by (subst countFrom.simps) simp
qed

lemma countFrom_skip:
  assumes "matchEnds r (w, c # t) = []" "consuming r"
  shows "countFrom r w (c # t) =
           countFrom r (isWordRune (fst (decodeRune (c # t)))) (drop (runeWidth (c # t) - 1) t)"
proof -
  let ?n = "runeWidth (c # t)"
  let ?w1 = "isWordRune (fst (decodeRune (c # t)))"
  let ?t1 = "drop (?n - 1) t"
  have n: "1 \<le> ?n" "?n \<le> length (c # t)"
    using runeWidth_bounds [of c t] by auto
  have t1: "?t1 = drop ?n (c # t)" by (rule drop_rune)
  show ?thesis
  proof (cases "search r ?w1 ?t1")
    case None
    then show ?thesis
      using search_skip [OF assms(1)]
      by (subst countFrom.simps, subst (2) countFrom.simps) simp
  next
    case (Some m)
    have pos: "0 < snd m" using search_consuming [OF assms(2) Some] .
    have bnd: "fst m + snd m \<le> length ?t1" using search_bounds [OF Some] by simp
    have s: "search r w (c # t) = Some (?n + fst m, snd m)"
      using search_skip [OF assms(1)] Some by simp
    have d: "drop (?n + fst m + snd m) (c # t) = drop (fst m + snd m) ?t1"
      unfolding t1 by (simp add: add.commute add.left_commute)
    have g1: "length (drop (fst m + snd m) ?t1) < length ?t1"
      using bnd pos by simp
    have g2: "length (drop (?n + fst m + snd m) (c # t)) < length (c # t)"
      using n by simp
    have "ctxAt (ctxAt w (c # t) ?n) (drop ?n (c # t)) (fst m + snd m) = ctxAt w (c # t) (?n + (fst m + snd m))"
      using bnd n(2) by (intro ctxAt_add) (simp_all add: t1)
    then have c: "ctxAt w (c # t) (?n + fst m + snd m) = ctxAt ?w1 ?t1 (fst m + snd m)"
      using ctx_after_rune [of c t w] by (simp only: t1 add.assoc)
    have "countFrom r w (c # t) = Suc (countFrom r (ctxAt w (c # t) (?n + fst m + snd m)) (drop (?n + fst m + snd m) (c # t)))"
      using s g2 by (subst countFrom.simps) simp
    also have "\<dots> = Suc (countFrom r (ctxAt ?w1 ?t1 (fst m + snd m)) (drop (fst m + snd m) ?t1))"
      by (simp only: c d)
    also have "\<dots> = countFrom r ?w1 ?t1"
      using Some g1 by (subst (2) countFrom.simps) simp
    finally show ?thesis .
  qed
qed

lemma countFrom_skip_ascii:
  assumes "byte c < 0x80" "matchEnds r (w, c # t) = []" "consuming r"
  shows "countFrom r w (c # t) = countFrom r (isWordRune (byte c)) t"
  using countFrom_skip [OF assms(2,3)] assms(1) by simp

lemma countFrom_step:
  "consuming r \<Longrightarrow>
   countFrom r w (c # t) =
     (case matchEnds r (w, c # t) of
        [] \<Rightarrow> countFrom r (isWordRune (fst (decodeRune (c # t)))) (drop (runeWidth (c # t) - 1) t)
      | z # zs \<Rightarrow> Suc (countFrom r (fst z) (snd z)))"
  using countFrom_skip [of r w c t] countFrom_hit [of r w "c # t"]
  by (auto split: list.splits)

lemmas rx_eval =
  lit_def litRunes_def byte_def nextIsWord_def isWordRune_def inRanges_def wordRanges_def
  stepRune_def reSpace_def reNot_def Plus_def

lemma branchPatterns_consuming: "list_all consuming branchPatterns"
  by (simp add: branchPatterns_def rx_eval)

lemma count_base:
  "map (\<lambda>p. countFrom p False (''{'' @ rest)) branchPatterns
     = map (\<lambda>p. countFrom p False rest) branchPatterns"
  by (simp add: branchPatterns_def countFrom_step rx_eval)

lemma count_head:
  "\<forall>(c, ns) \<in> set headInsertions.
     map (\<lambda>p. countFrom p False (''{'' @ c @ rest)) branchPatterns
       = map2 (+) ns (map (\<lambda>p. countFrom p False rest) branchPatterns)"
  by (simp add: headInsertions_def branchPatterns_def countFrom_step rx_eval)

lemma specScore_countFrom:
  assumes "body \<noteq> []"
  shows "specScore body = 1 + sum_list (map int (map (\<lambda>p. countFrom p False body) branchPatterns))"
proof -
  have "\<forall>p \<in> set branchPatterns. length (FindAllString p body) = countFrom p False body"
    using branchPatterns_consuming by (simp add: list_all_iff FindAllString_countFrom)
  then have eq: "map (\<lambda>pattern. int (length (FindAllString pattern body))) branchPatterns
               = map int (map (\<lambda>p. countFrom p False body) branchPatterns)"
    unfolding map_map comp_def by (intro map_cong) simp_all
  show ?thesis
    unfolding specScore_def eq using assms by simp
qed

lemma sum_list_map2_add:
  "length ns = length xs \<Longrightarrow>
   sum_list (map int (map2 (+) ns xs)) = int (sum_list ns) + sum_list (map int xs)"
  by (induction ns xs rule: list_induct2) auto

section \<open>Properties: one more branch statement\<close>

text \<open>
  A branch statement put at the head of a body raises the score by the number of
  matches of the twelve patterns in its text, whatever follows it. The score never
  falls. The number is 1 for \<open>if\<close>, \<open>else\<close>, \<open>while\<close>, \<open>for\<close>, \<open>switch\<close>,
  \<open>try\<close> with \<open>catch\<close>, the conditional expression, \<open>&&\<close> and \<open>||\<close>; it is 3 for
  \<open>else if\<close>, which the patterns for \<open>if\<close>, \<open>else if\<close> and \<open>else\<close> all match, and 2
  for \<open>do\<close> with \<open>while\<close>.
\<close>

lemma specScore_head_insertion:
  "\<forall>(c, ns) \<in> set headInsertions.
     specScore (''{'' @ c @ rest) = specScore (''{'' @ rest) + int (sum_list ns)
     \<and> 1 \<le> sum_list ns
     \<and> specScore (''{'' @ rest) \<le> specScore (''{'' @ c @ rest)"
proof (intro ballI, clarify)
  fix c ns
  assume m: "(c, ns) \<in> set headInsertions"
  let ?cnt = "\<lambda>body. map (\<lambda>p. countFrom p False body) branchPatterns"
  have h: "?cnt (''{'' @ c @ rest) = map2 (+) ns (?cnt rest)"
    using count_head [of rest] m by blast
  have b: "?cnt (''{'' @ rest) = ?cnt rest"
    by (rule count_base)
  have len: "length ns = length (?cnt rest)"
    using m by (auto simp: headInsertions_def branchPatterns_def)
  have pos: "1 \<le> sum_list ns"
    using m by (auto simp: headInsertions_def)
  have n1: "''{'' @ c @ rest \<noteq> []" and n2: "''{'' @ rest \<noteq> []"
    by simp_all
  have "specScore (''{'' @ c @ rest) = 1 + sum_list (map int (?cnt (''{'' @ c @ rest)))"
    by (rule specScore_countFrom [OF n1])
  also have "\<dots> = 1 + sum_list (map int (map2 (+) ns (?cnt rest)))"
    by (simp only: h)
  also have "\<dots> = 1 + (int (sum_list ns) + sum_list (map int (?cnt rest)))"
    by (simp only: sum_list_map2_add [OF len])
  also have "\<dots> = 1 + (int (sum_list ns) + sum_list (map int (?cnt (''{'' @ rest))))"
    by (simp only: b)
  also have "\<dots> = specScore (''{'' @ rest) + int (sum_list ns)"
    using specScore_countFrom [OF n2] by linarith
  finally have e: "specScore (''{'' @ c @ rest) = specScore (''{'' @ rest) + int (sum_list ns)" .
  then show "specScore (''{'' @ c @ rest) = specScore (''{'' @ rest) + int (sum_list ns)
     \<and> 1 \<le> sum_list ns
     \<and> specScore (''{'' @ rest) \<le> specScore (''{'' @ c @ rest)"
    using pos by simp
qed

text \<open>
  Claim C6. One more branch construct raises the score by exactly 1, as the
  documentation of the rule also counts (\<open>RULE_ANALYSIS.md\<close> marks every \<open>else if\<close> of
  its example with one step and gives the method the score 11). The program does not:
  behind an \<open>if\<close> statement, one \<open>else if\<close> raises the score from 2 to 5, and the method
  of the documented example has the score 17.
\<close>

theorem calculateComplexity_else_if:
  "calculateComplexity (exFile ''void f(){if(a){}}'' NoAST) (exMethod ''f'') = Inr 2
   \<and> calculateComplexity (exFile ''void f(){if(a){}else if(b){}}'' NoAST) (exMethod ''f'') = Inr 5
   \<and> calculateComplexity (exFile exOrderProcessor NoAST) (exMethod ''processOrder'') = Inr 17"
  by code_simp

section \<open>Properties: words\<close>

lemma isWordByte_ascii: "isWordByte c \<Longrightarrow> byte c < 0x80"
  by (auto simp: isWordByte_def isWordRune_def inRanges_def wordRanges_def)

lemma wordMap_Nil [simp]: "wordMap h [] = []"
  by simp

lemma wordMap_nonword [simp]: "\<not> isWordByte c \<Longrightarrow> wordMap h (c # t) = c # wordMap h t"
  by simp

lemma wordMap_wordbyte:
  "isWordByte c \<Longrightarrow>
   wordMap h (c # t) = h (c # takeWhile isWordByte t) @ wordMap h (dropWhile isWordByte t)"
  by simp

declare wordMap.simps(2) [simp del]

lemma takeWhile_sep:
  "\<not> P c \<Longrightarrow> takeWhile P (a @ c # b) = takeWhile P a"
  by (induction a) auto

lemma dropWhile_sep:
  "\<not> P c \<Longrightarrow> dropWhile P (a @ c # b) = dropWhile P a @ c # b"
  by (induction a) auto

text \<open>A byte that is no word byte separates the words on its two sides.\<close>

lemma wordMap_sep:
  "\<not> isWordByte c \<Longrightarrow> wordMap h (a @ c # b) = wordMap h a @ c # wordMap h b"
proof (induction h a rule: wordMap.induct)
  case (1 h)
  then show ?case by simp
next
  case (2 h x t)
  show ?case
  proof (cases "isWordByte x")
    case True
    then show ?thesis
      using 2(1) [OF True "2.prems"] "2.prems"
      by (simp add: wordMap_wordbyte takeWhile_sep dropWhile_sep)
  next
    case False
    then show ?thesis
      using 2(2) [OF False "2.prems"] by simp
  qed
qed

lemma wordMap_nonword_prefix:
  "list_all (\<lambda>c. \<not> isWordByte c) p \<Longrightarrow> wordMap h (p @ u) = p @ wordMap h u"
  by (induction p) auto

lemma wordMap_nonword_only:
  "list_all (\<lambda>c. \<not> isWordByte c) p \<Longrightarrow> wordMap h p = p"
  using wordMap_nonword_prefix [of p h "[]"] by simp

lemma wordMap_nonword_suffix:
  "list_all (\<lambda>c. \<not> isWordByte c) q \<Longrightarrow> wordMap h (a @ q) = wordMap h a @ q"
proof (cases q)
  case Nil
  then show ?thesis by simp
next
  case (Cons c q')
  assume "list_all (\<lambda>c. \<not> isWordByte c) q"
  then have "\<not> isWordByte c" "list_all (\<lambda>c. \<not> isWordByte c) q'"
    using Cons by auto
  then show ?thesis
    using Cons wordMap_sep [of c h a q'] wordMap_nonword_only [of q' h] by simp
qed

lemma isWord_run: "isWordByte c \<Longrightarrow> isWord (c # takeWhile isWordByte t)"
  by (auto simp: isWord_def list_all_iff dest: set_takeWhileD)

lemma dropWhile_head: "dropWhile P t = [] \<or> \<not> P (hd (dropWhile P t))"
  by (metis hd_dropWhile)

text \<open>A word followed by the end or by a byte that is no word byte.\<close>

lemma wordMap_word:
  assumes "isWord w" "u = [] \<or> \<not> isWordByte (hd u)"
  shows "wordMap h (w @ u) = h w @ wordMap h u"
proof -
  from assms(1) obtain c w' where w: "w = c # w'" "isWordByte c" "\<forall>x \<in> set w'. isWordByte x"
    by (cases w) (auto simp: isWord_def list_all_iff)
  have "takeWhile isWordByte (w' @ u) = w'" "dropWhile isWordByte (w' @ u) = u"
    using w(3) assms(2) by (cases u; simp)+
  then show ?thesis
    using w by (simp add: wordMap_wordbyte)
qed

lemma wordMap_head:
  assumes "\<And>w. isWord w \<Longrightarrow> isWord (h w)"
  shows "wordMap h s = [] \<longleftrightarrow> s = []"
    and "s \<noteq> [] \<Longrightarrow> isWordByte (hd (wordMap h s)) = isWordByte (hd s)"
proof -
  have "(wordMap h s = [] \<longleftrightarrow> s = []) \<and> (s \<noteq> [] \<longrightarrow> isWordByte (hd (wordMap h s)) = isWordByte (hd s))"
  proof (cases s)
    case Nil
    then show ?thesis by simp
  next
    case (Cons c t)
    show ?thesis
    proof (cases "isWordByte c")
      case True
      have "isWord (h (c # takeWhile isWordByte t))"
        using assms isWord_run [OF True] by simp
      then show ?thesis
        using Cons True by (cases "h (c # takeWhile isWordByte t)") (auto simp: wordMap_wordbyte isWord_def)
    next
      case False
      then show ?thesis using Cons by simp
    qed
  qed
  then show "wordMap h s = [] \<longleftrightarrow> s = []"
    and "s \<noteq> [] \<Longrightarrow> isWordByte (hd (wordMap h s)) = isWordByte (hd s)"
    by auto
qed

lemma wordMap_comp:
  assumes "\<And>w. isWord w \<Longrightarrow> isWord (h w)"
  shows "wordMap g (wordMap h s) = wordMap (\<lambda>w. g (h w)) s"
proof (induction "length s" arbitrary: s rule: less_induct)
  case less
  show ?case
  proof (cases s)
    case Nil
    then show ?thesis by simp
  next
    case (Cons c t)
    show ?thesis
    proof (cases "isWordByte c")
      case True
      let ?w = "c # takeWhile isWordByte t"
      let ?u = "dropWhile isWordByte t"
      have lt: "length ?u < length s"
        using Cons length_dropWhile_le [of isWordByte t] by simp
      have hw: "isWord (h ?w)"
        using assms isWord_run [OF True] by simp
      have "?u = [] \<or> \<not> isWordByte (hd ?u)"
        by (rule dropWhile_head)
      then have "wordMap h ?u = [] \<or> \<not> isWordByte (hd (wordMap h ?u))"
        using wordMap_head [of h ?u] assms by auto
      then have "wordMap g (h ?w @ wordMap h ?u) = g (h ?w) @ wordMap g (wordMap h ?u)"
        using wordMap_word [OF hw] by simp
      then show ?thesis
        using Cons True less [OF lt] by (simp add: wordMap_wordbyte)
    next
      case False
      then show ?thesis
        using Cons less [of t] by simp
    qed
  qed
qed

lemma wordMap_cong:
  assumes "\<And>w. isWord w \<Longrightarrow> g w = h w"
  shows "wordMap g s = wordMap h s"
proof (induction "length s" arbitrary: s rule: less_induct)
  case less
  show ?case
  proof (cases s)
    case Nil
    then show ?thesis by simp
  next
    case (Cons c t)
    show ?thesis
    proof (cases "isWordByte c")
      case True
      have lt: "length (dropWhile isWordByte t) < length s"
        using Cons length_dropWhile_le [of isWordByte t] by simp
      show ?thesis
        using Cons True less [OF lt] assms [OF isWord_run [OF True]]
        by (simp add: wordMap_wordbyte)
    next
      case False
      then show ?thesis
        using Cons less [of t] by simp
    qed
  qed
qed

lemma wordMap_last:
  assumes "\<And>w. isWord w \<Longrightarrow> isWord (h w)"
  shows "s \<noteq> [] \<Longrightarrow> isWordByte (last s) \<Longrightarrow>
         wordMap h s \<noteq> [] \<and> isWordByte (last (wordMap h s))"
proof (induction "length s" arbitrary: s rule: less_induct)
  case less
  from less.prems obtain c t where Cons: "s = c # t" by (cases s) auto
  show ?case
  proof (cases "isWordByte c")
    case True
    let ?w = "c # takeWhile isWordByte t"
    let ?u = "dropWhile isWordByte t"
    have lt: "length ?u < length s"
      using Cons length_dropWhile_le [of isWordByte t] by simp
    have hw: "isWord (h ?w)"
      using assms isWord_run [OF True] by simp
    then have hw': "h ?w \<noteq> []" "isWordByte (last (h ?w))"
      by (auto simp: isWord_def list_all_iff)
    have e: "wordMap h s = h ?w @ wordMap h ?u"
      using Cons True by (simp add: wordMap_wordbyte)
    show ?thesis
    proof (cases "?u = []")
      case True
      then have "wordMap h s = h ?w"
        using e by (metis wordMap_Nil append_Nil2)
      then show ?thesis
        using hw' by simp
    next
      case False
      have "t = takeWhile isWordByte t @ ?u" by simp
      then have "last s = last ?u"
        using Cons False by (metis last_ConsR last_appendR append_is_Nil_conv)
      then have "wordMap h ?u \<noteq> [] \<and> isWordByte (last (wordMap h ?u))"
        using less.hyps [OF lt False] less.prems(2) by simp
      then show ?thesis
        using e by simp
    qed
  next
    case False
    then have "t \<noteq> []" using Cons less.prems(2) by auto
    then show ?thesis
      using Cons False less.hyps [of t] less.prems(2) by simp
  qed
qed

section \<open>Properties: word maps and the prefixes and suffixes of a line\<close>

lemma HasPrefix_Cons: "HasPrefix (c # s) (x # e) = (c = x \<and> HasPrefix s e)"
  by (auto simp: HasPrefix_def)

lemma HasPrefix_Nil2 [simp]: "HasPrefix s []"
  by (simp add: HasPrefix_def)

lemma HasPrefix_wordMap:
  assumes "\<And>w. isWord w \<Longrightarrow> isWord (h w)"
  shows "list_all (\<lambda>c. \<not> isWordByte c) e \<Longrightarrow> HasPrefix (wordMap h s) e = HasPrefix s e"
proof (induction e arbitrary: s)
  case Nil
  then show ?case by simp
next
  case (Cons x e)
  show ?case
  proof (cases s)
    case Nil
    then show ?thesis by simp
  next
    case c: (Cons c t)
    show ?thesis
    proof (cases "isWordByte c")
      case True
      have "isWordByte (hd (wordMap h s))" "wordMap h s \<noteq> []"
        using wordMap_head [of h s] assms c True by auto
      then obtain y r where "wordMap h s = y # r" "isWordByte y"
        by (cases "wordMap h s") auto
      then show ?thesis
        using c True Cons.prems by (auto simp: HasPrefix_Cons)
    next
      case False
      then show ?thesis
        using c Cons by (simp add: HasPrefix_Cons)
    qed
  qed
qed

lemma HasPrefix_append: "HasPrefix s e \<longleftrightarrow> (\<exists>u. s = e @ u)"
  by (auto simp: HasPrefix_def) (metis append_take_drop_id)

lemma HasSuffix_append: "HasSuffix s e \<longleftrightarrow> (\<exists>a. s = a @ e)"
proof
  assume "HasSuffix s e"
  then have "s = take (length s - length e) s @ e"
    by (metis HasSuffix_def append_take_drop_id)
  then show "\<exists>a. s = a @ e" ..
next
  assume "\<exists>a. s = a @ e"
  then show "HasSuffix s e" by (auto simp: HasSuffix_def)
qed

lemma HasSuffix_wordMap:
  assumes "\<And>w. isWord w \<Longrightarrow> isWord (h w)" and e: "list_all (\<lambda>c. \<not> isWordByte c) e"
  shows "HasSuffix (wordMap h s) e = HasSuffix s e"
proof
  assume "HasSuffix s e"
  then obtain a where "s = a @ e" by (auto simp: HasSuffix_append)
  then show "HasSuffix (wordMap h s) e"
    using wordMap_nonword_suffix [OF e, of h a] by (auto simp: HasSuffix_append)
next
  assume r: "HasSuffix (wordMap h s) e"
  define q where "q = rev (takeWhile (\<lambda>c. \<not> isWordByte c) (rev s))"
  define a where "a = rev (dropWhile (\<lambda>c. \<not> isWordByte c) (rev s))"
  have s: "s = a @ q"
    unfolding a_def q_def by (metis rev_append rev_rev_ident takeWhile_dropWhile_id)
  have q: "list_all (\<lambda>c. \<not> isWordByte c) q"
    unfolding q_def by (auto simp: list_all_iff dest: set_takeWhileD)
  have a: "isWordByte (last a)" if "a \<noteq> []"
    using that hd_dropWhile [of "\<lambda>c. \<not> isWordByte c" "rev s"]
    unfolding a_def by (auto simp: last_rev)
  let ?b = "wordMap h a"
  have b: "?b = [] \<or> isWordByte (last ?b)"
  proof (cases "a = []")
    case True
    then show ?thesis by simp
  next
    case False
    then show ?thesis using a wordMap_last [of h a] assms(1) by blast
  qed
  have w: "wordMap h s = ?b @ q"
    unfolding s by (rule wordMap_nonword_suffix [OF q])
  from r w have "suffix e (?b @ q)"
    by (auto simp: HasSuffix_append suffix_def)
  then have "suffix e q \<or> (\<exists>e1. suffix e1 ?b \<and> e = e1 @ q)"
    unfolding suffix_append by blast
  then consider "suffix e q" | e1 where "suffix e1 ?b" "e = e1 @ q" "e1 \<noteq> []"
    by (metis append_Nil suffix_order.refl)
  then have "suffix e q"
  proof cases
    case 1
    then show ?thesis .
  next
    case 2
    then have "?b \<noteq> []" "last ?b = last e1"
      by (auto simp: suffix_def)
    then have "isWordByte (last e1)" using b by auto
    moreover have "last e1 \<in> set e" using 2(2,3) by simp
    ultimately show ?thesis using e by (auto simp: list_all_iff)
  qed
  then show "HasSuffix s e"
    unfolding s by (auto simp: HasSuffix_append suffix_def)
qed

lemma spaceEncodings_nonword:
  "list_all (\<lambda>e. e \<noteq> [] \<and> list_all (\<lambda>c. \<not> isWordByte c) e) spaceEncodings"
  by code_simp

lemma spaceEncodings_mem:
  "e \<in> set spaceEncodings \<Longrightarrow> e \<noteq> [] \<and> list_all (\<lambda>c. \<not> isWordByte c) e"
  using spaceEncodings_nonword by (auto simp: list_all_iff)

lemma TrimLeftSpace_unfold:
  "TrimLeftSpace s =
     (case find (\<lambda>e. HasPrefix s e) spaceEncodings of
        None \<Rightarrow> s
      | Some e \<Rightarrow> TrimLeftSpace (drop (length e) s))"
proof (cases s)
  case Nil
  have "find (\<lambda>e. HasPrefix [] e) spaceEncodings = None"
    using spaceEncodings_mem by (auto simp: find_None_iff HasPrefix_def)
  then show ?thesis using Nil by simp
next
  case (Cons c t)
  show ?thesis
  proof (cases "find (\<lambda>e. HasPrefix s e) spaceEncodings")
    case None
    then show ?thesis using Cons by simp
  next
    case (Some e)
    then have "e \<in> set spaceEncodings"
      by (auto simp: find_Some_iff)
    then have "e \<noteq> []" using spaceEncodings_mem by blast
    then have "drop (length e - 1) t = drop (length e) (c # t)"
      by (cases e) auto
    then show ?thesis using Cons Some by simp
  qed
qed

lemma TrimLeftSpace_wordMap:
  assumes "\<And>w. isWord w \<Longrightarrow> isWord (h w)"
  shows "TrimLeftSpace (wordMap h s) = wordMap h (TrimLeftSpace s)"
proof (induction "length s" arbitrary: s rule: less_induct)
  case less
  have f: "find (\<lambda>e. HasPrefix (wordMap h s) e) spaceEncodings
             = find (\<lambda>e. HasPrefix s e) spaceEncodings"
    using HasPrefix_wordMap [OF assms] spaceEncodings_mem by (intro find_cong) auto
  show ?case
  proof (cases "find (\<lambda>e. HasPrefix s e) spaceEncodings")
    case None
    then show ?thesis
      using f by (subst TrimLeftSpace_unfold, subst (2) TrimLeftSpace_unfold) simp
  next
    case (Some e)
    then have e: "e \<in> set spaceEncodings" "HasPrefix s e"
      by (auto simp: find_Some_iff)
    then obtain u where u: "s = e @ u" by (auto simp: HasPrefix_append)
    have ne: "e \<noteq> []" "list_all (\<lambda>c. \<not> isWordByte c) e"
      using spaceEncodings_mem [OF e(1)] by auto
    have w: "wordMap h s = e @ wordMap h u"
      unfolding u by (rule wordMap_nonword_prefix [OF ne(2)])
    have lt: "length u < length s" using u ne(1) by simp
    have "TrimLeftSpace (wordMap h s) = TrimLeftSpace (wordMap h u)"
      using f Some w by (subst TrimLeftSpace_unfold) simp
    also have "\<dots> = wordMap h (TrimLeftSpace u)"
      by (rule less [OF lt])
    also have "TrimLeftSpace u = TrimLeftSpace s"
      using Some u by (subst (2) TrimLeftSpace_unfold) simp
    finally show ?thesis .
  qed
qed

lemma TrimRightSpace_unfold:
  "TrimRightSpace s =
     (case find (\<lambda>e. HasSuffix s e) spaceEncodings of
        None \<Rightarrow> s
      | Some e \<Rightarrow> TrimRightSpace (take (length s - length e) s))"
proof (cases "s = []")
  case True
  have "find (\<lambda>e. HasSuffix [] e) spaceEncodings = None"
    using spaceEncodings_mem by (auto simp: find_None_iff HasSuffix_def)
  then show ?thesis using True by (subst TrimRightSpace.simps) simp
next
  case False
  show ?thesis
  proof (cases "find (\<lambda>e. HasSuffix s e) spaceEncodings")
    case None
    then show ?thesis using False by (subst TrimRightSpace.simps) simp
  next
    case (Some e)
    then have "e \<in> set spaceEncodings"
      by (auto simp: find_Some_iff)
    then have "e \<noteq> []" using spaceEncodings_mem by blast
    then have "max 1 (length e) = length e"
      by (cases e) auto
    then show ?thesis using False Some by (subst TrimRightSpace.simps) simp
  qed
qed

lemma TrimRightSpace_wordMap:
  assumes "\<And>w. isWord w \<Longrightarrow> isWord (h w)"
  shows "TrimRightSpace (wordMap h s) = wordMap h (TrimRightSpace s)"
proof (induction "length s" arbitrary: s rule: less_induct)
  case less
  have f: "find (\<lambda>e. HasSuffix (wordMap h s) e) spaceEncodings
             = find (\<lambda>e. HasSuffix s e) spaceEncodings"
    using HasSuffix_wordMap [OF assms] spaceEncodings_mem by (intro find_cong) auto
  show ?case
  proof (cases "find (\<lambda>e. HasSuffix s e) spaceEncodings")
    case None
    then show ?thesis
      using f by (subst TrimRightSpace_unfold, subst (2) TrimRightSpace_unfold) simp
  next
    case (Some e)
    then have e: "e \<in> set spaceEncodings" "HasSuffix s e"
      by (auto simp: find_Some_iff)
    then obtain a where a: "s = a @ e" by (auto simp: HasSuffix_append)
    have ne: "e \<noteq> []" "list_all (\<lambda>c. \<not> isWordByte c) e"
      using spaceEncodings_mem [OF e(1)] by auto
    have w: "wordMap h s = wordMap h a @ e"
      unfolding a by (rule wordMap_nonword_suffix [OF ne(2)])
    have lt: "length a < length s" using a ne(1) by simp
    have "TrimRightSpace (wordMap h s) = TrimRightSpace (wordMap h a)"
      using f Some w by (subst TrimRightSpace_unfold) simp
    also have "\<dots> = wordMap h (TrimRightSpace a)"
      by (rule less [OF lt])
    also have "TrimRightSpace a = TrimRightSpace s"
      using Some a by (subst (2) TrimRightSpace_unfold) simp
    finally show ?thesis .
  qed
qed

lemma TrimSpace_wordMap:
  assumes "\<And>w. isWord w \<Longrightarrow> isWord (h w)"
  shows "TrimSpace (wordMap h s) = wordMap h (TrimSpace s)"
  by (simp add: TrimSpace_def TrimLeftSpace_wordMap [OF assms] TrimRightSpace_wordMap [OF assms])

section \<open>Properties: the replacement seen from the text still to read\<close>

lemma replaceFrom_Nil: "consuming r \<Longrightarrow> replaceFrom r repl w [] = []"
  using search_consuming [of r w "[]"] search_bounds [of r w "[]"]
  by (subst replaceFrom.simps) (auto split: option.splits)

lemma replaceFrom_hit:
  assumes "matchEnds r (w, s) = z # zs" "consuming r"
  shows "replaceFrom r repl w s = repl @ replaceFrom r repl (fst z) (snd z)"
proof -
  have zin: "z \<in> set (matchEnds r (w, s))" using assms(1) by simp
  from matchEnds_reach [OF zin] obtain k where k: "k \<le> length s" "snd z = drop k s"
    "fst z = ctxAt w s k"
    by (auto simp: reach_def)
  have lt: "length (snd z) < length s"
    using matchEnds_consuming [OF assms(2) zin] by simp
  have l: "length s - length (snd z) = k"
    using k(1,2) by simp
  show ?thesis
    using search_hit [OF assms(1)] lt k(2,3) l
    by (subst replaceFrom.simps) simp
qed

lemma replaceFrom_skip:
  assumes "matchEnds r (w, c # t) = []" "consuming r"
  shows "replaceFrom r repl w (c # t) =
           take (runeWidth (c # t)) (c # t)
             @ replaceFrom r repl (isWordRune (fst (decodeRune (c # t)))) (drop (runeWidth (c # t) - 1) t)"
proof -
  let ?n = "runeWidth (c # t)"
  let ?w1 = "isWordRune (fst (decodeRune (c # t)))"
  let ?t1 = "drop (?n - 1) t"
  have n: "1 \<le> ?n" "?n \<le> length (c # t)"
    using runeWidth_bounds [of c t] by auto
  have t1: "?t1 = drop ?n (c # t)" by (rule drop_rune)
  show ?thesis
  proof (cases "search r ?w1 ?t1")
    case None
    have "replaceFrom r repl w (c # t) = c # t"
      using search_skip [OF assms(1)] None by (subst replaceFrom.simps) simp
    moreover have "replaceFrom r repl ?w1 ?t1 = ?t1"
      using None by (subst replaceFrom.simps) simp
    ultimately show ?thesis
      by (simp only: t1 append_take_drop_id)
  next
    case (Some m)
    have pos: "0 < snd m" using search_consuming [OF assms(2) Some] .
    have bnd: "fst m + snd m \<le> length ?t1" using search_bounds [OF Some] by simp
    have s: "search r w (c # t) = Some (?n + fst m, snd m)"
      using search_skip [OF assms(1)] Some by simp
    have d: "drop (?n + fst m + snd m) (c # t) = drop (fst m + snd m) ?t1"
      unfolding t1 by (simp add: add.commute add.left_commute)
    have g1: "length (drop (fst m + snd m) ?t1) < length ?t1"
      using bnd pos by simp
    have g2: "length (drop (?n + fst m + snd m) (c # t)) < length (c # t)"
      using n by simp
    have "ctxAt (ctxAt w (c # t) ?n) (drop ?n (c # t)) (fst m + snd m) = ctxAt w (c # t) (?n + (fst m + snd m))"
      using bnd n(2) by (intro ctxAt_add) (simp_all add: t1)
    then have c: "ctxAt w (c # t) (?n + fst m + snd m) = ctxAt ?w1 ?t1 (fst m + snd m)"
      using ctx_after_rune [of c t w] by (simp only: t1 add.assoc)
    have tk: "take (?n + fst m) (c # t) = take ?n (c # t) @ take (fst m) ?t1"
      unfolding t1 by (rule take_add)
    have "replaceFrom r repl w (c # t) =
            take (?n + fst m) (c # t) @ repl
              @ replaceFrom r repl (ctxAt w (c # t) (?n + fst m + snd m)) (drop (?n + fst m + snd m) (c # t))"
      using s g2 by (subst replaceFrom.simps) simp
    also have "\<dots> = take ?n (c # t) @ (take (fst m) ?t1 @ repl
              @ replaceFrom r repl (ctxAt ?w1 ?t1 (fst m + snd m)) (drop (fst m + snd m) ?t1))"
      by (simp only: c d tk append_assoc)
    also have "take (fst m) ?t1 @ repl
              @ replaceFrom r repl (ctxAt ?w1 ?t1 (fst m + snd m)) (drop (fst m + snd m) ?t1)
             = replaceFrom r repl ?w1 ?t1"
      using Some g1 by (subst (2) replaceFrom.simps) simp
    finally show ?thesis .
  qed
qed

text \<open>The bytes of a rune after the first are continuation bytes.\<close>

lemma rune_tail_high:
  "x \<in> set (take (runeWidth (c # t) - 1) t) \<Longrightarrow> 0x80 \<le> byte x"
proof (cases "byte c < 0x80")
  case True
  assume "x \<in> set (take (runeWidth (c # t) - 1) t)"
  then show ?thesis using True by simp
next
  case False
  assume x: "x \<in> set (take (runeWidth (c # t) - 1) t)"
  then obtain i where i: "i < runeWidth (c # t) - 1" "i < length t" "x = t ! i"
    by (auto simp: in_set_conv_nth)
  show ?thesis
  proof (cases "firstInfo (byte c)")
    case None
    then show ?thesis using False i by (simp add: runeWidth_def decodeRune.simps)
  next
    case (Some q)
    obtain sz lo hi where q: "q = (sz, lo, hi)" by (cases q)
    from firstInfo_Some [of "byte c" sz lo hi] Some q
    have lo: "0x80 \<le> lo" by auto
    have "i = 0 \<or> i = 1 \<or> i = 2 \<or> 3 \<le> i" by arith
    then show ?thesis
      using False Some q lo i
      by (auto simp: runeWidth_def Let_def isCont_def decodeRune.simps split: if_splits)
  qed
qed

lemma isWordByte_high: "0x80 \<le> byte x \<Longrightarrow> \<not> isWordByte x"
  by (simp add: isWordByte_def isWordRune_high)

lemma rune_word: "isWordRune (fst (decodeRune (c # t))) = isWordByte c"
proof (cases "byte c < 0x80")
  case True
  then show ?thesis by (simp add: isWordByte_def)
next
  case False
  then have h: "0x80 \<le> byte c" by simp
  show ?thesis
    using isWordRune_high [OF decodeRune_high [OF h]] isWordByte_high [OF h] by simp
qed

lemma nextIsWord_Cons [simp]: "nextIsWord (c # t) = isWordByte c"
  by (simp add: nextIsWord_def rune_word)

lemma nextIsWord_Nil [simp]: "nextIsWord [] = False"
  by (simp add: nextIsWord_def)

text \<open>One step of the replacement, with the rune that is skipped split into its first
  byte and the continuation bytes.\<close>

lemma replaceFrom_step:
  assumes "consuming r"
  shows "matchEnds r (w, c # t) = z # zs \<Longrightarrow>
           replaceFrom r repl w (c # t) = repl @ replaceFrom r repl (fst z) (snd z)"
    and "matchEnds r (w, c # t) = [] \<Longrightarrow>
           \<exists>p u. t = p @ u \<and> (\<forall>x \<in> set p. 0x80 \<le> byte x) \<and> (byte c < 0x80 \<longrightarrow> p = [])
                 \<and> replaceFrom r repl w (c # t) = c # p @ replaceFrom r repl (isWordByte c) u"
proof -
  show "matchEnds r (w, c # t) = z # zs \<Longrightarrow>
           replaceFrom r repl w (c # t) = repl @ replaceFrom r repl (fst z) (snd z)"
    by (rule replaceFrom_hit [OF _ assms])
next
  assume m: "matchEnds r (w, c # t) = []"
  let ?n = "runeWidth (c # t)"
  let ?p = "take (?n - 1) t"
  let ?u = "drop (?n - 1) t"
  have n: "1 \<le> ?n" using runeWidth_bounds [of c t] by auto
  then have tk: "take ?n (c # t) = c # ?p"
    by (cases ?n) auto
  have "replaceFrom r repl w (c # t) = c # ?p @ replaceFrom r repl (isWordByte c) ?u"
    using replaceFrom_skip [OF m assms, of repl] by (simp only: tk rune_word append_Cons)
  moreover have "t = ?p @ ?u" by simp
  moreover have "\<forall>x \<in> set ?p. 0x80 \<le> byte x"
    using rune_tail_high by blast
  moreover have "byte c < 0x80 \<longrightarrow> ?p = []" by simp
  ultimately show "\<exists>p u. t = p @ u \<and> (\<forall>x \<in> set p. 0x80 \<le> byte x) \<and> (byte c < 0x80 \<longrightarrow> p = [])
                 \<and> replaceFrom r repl w (c # t) = c # p @ replaceFrom r repl (isWordByte c) u"
    by blast
qed

section \<open>Properties: the three expressions of the line normalization\<close>

lemma stepRune_Nil [simp]: "stepRune P (w, []) = []"
  by (simp add: stepRune_def)

lemma stepRune_Cons:
  "stepRune P (w, c # t) =
     (if P (fst (decodeRune (c # t))) then [(isWordByte c, drop (runeWidth (c # t) - 1) t)] else [])"
  by (simp add: stepRune_def rune_word)

text \<open>A class of ASCII ranges looks at the first byte only.\<close>

lemma inRanges_low:
  assumes "\<forall>(lo, hi) \<in> set rs. hi < 0x80"
  shows "inRanges rs (fst (decodeRune (c # t))) = inRanges rs (byte c)"
proof (cases "byte c < 0x80")
  case True
  then show ?thesis by simp
next
  case False
  then have h: "0x80 \<le> byte c" by simp
  have "\<not> inRanges rs r" if "0x80 \<le> r" for r
    using assms that by (fastforce simp: inRanges_def list_ex_iff)
  then show ?thesis using decodeRune_high [OF h] h by blast
qed

lemma inRanges_low_width:
  assumes "\<forall>(lo, hi) \<in> set rs. hi < 0x80" "inRanges rs (byte c)"
  shows "runeWidth (c # t) = 1"
proof -
  have "byte c < 0x80"
    using assms by (fastforce simp: inRanges_def list_ex_iff)
  then show ?thesis by simp
qed

lemma stepRune_low:
  assumes "\<forall>(lo, hi) \<in> set rs. hi < 0x80"
  shows "stepRune (inRanges rs) (w, c # t) = (if inRanges rs (byte c) then [(isWordByte c, t)] else [])"
  using inRanges_low [OF assms, of c t] inRanges_low_width [OF assms, of c t]
  by (simp add: stepRune_Cons)

lemma step_word: "matchEnds reWord (w, c # t) = (if isWordByte c then [(True, t)] else [])"
  by (simp add: reWord_def stepRune_low wordRanges_def isWordByte_def isWordRune_def)

lemma isDigitByte_ranges: "inRanges [(0x30, 0x39)] (byte c) = isDigitByte c"
  by (simp add: inRanges_def isDigitByte_def)

lemma isDigitByte_word: "isDigitByte c \<Longrightarrow> isWordByte c"
  by (simp add: isDigitByte_def isWordByte_def isWordRune_def inRanges_def wordRanges_def)

lemma step_digit: "matchEnds reDigit (w, c # t) = (if isDigitByte c then [(True, t)] else [])"
  using isDigitByte_word [of c] by (simp add: reDigit_def stepRune_low isDigitByte_ranges)

lemma letter_ranges:
  "inRanges [(0x41, 0x5A), (0x5F, 0x5F), (0x61, 0x7A)] (byte c) = (isWordByte c \<and> \<not> isDigitByte c)"
  by (auto simp: inRanges_def isDigitByte_def isWordByte_def isWordRune_def wordRanges_def)

lemma step_letter:
  "matchEnds (Cls [(0x41, 0x5A), (0x5F, 0x5F), (0x61, 0x7A)]) (w, c # t) =
     (if isWordByte c \<and> \<not> isDigitByte c then [(True, t)] else [])"
  by (simp add: stepRune_low letter_ranges)

lemma wordB_Cons:
  "matchEnds WordB (w, c # t) = (if w \<noteq> isWordByte c then [(w, c # t)] else [])"
  by simp

lemma wordB_Nil: "matchEnds WordB (w, []) = (if w then [(w, [])] else [])"
  by simp

lemma concat_map_concat:
  "concat (map f (concat (map g xs))) = concat (map (\<lambda>x. concat (map f (g x))) xs)"
  by (induction xs) simp_all

lemma concat_map_snoc: "concat (map f (xs @ [z])) = concat (map f xs) @ f z"
  by simp

lemma star_word:
  "length t \<le> n \<Longrightarrow>
   concat (map (matchEnds WordB) (star (matchEnds reWord) n (True, t))) = [(True, dropWhile isWordByte t)]"
proof (induction n arbitrary: t)
  case 0
  then show ?case by simp
next
  case (Suc n)
  show ?case
  proof (cases t)
    case Nil
    then show ?thesis by (simp add: reWord_def)
  next
    case (Cons c u)
    then have "length u \<le> n" using Suc.prems by simp
    note ih = Suc.IH [OF this]
    show ?thesis
    proof (cases "isWordByte c")
      case True
      have "star (matchEnds reWord) (Suc n) (True, c # u)
              = star (matchEnds reWord) n (True, u) @ [(True, c # u)]"
        using True by (simp add: step_word)
      then show ?thesis
        using True Cons ih by (simp only: concat_map_snoc wordB_Cons) simp
    next
      case False
      have e: "star (matchEnds reWord) (Suc n) (True, c # u) = [(True, c # u)]"
        using False by (simp add: step_word)
      show ?thesis
        unfolding Cons e using False by (simp add: wordB_Cons del: matchEnds.simps)
    qed
  qed
qed

lemma star_digit:
  "length t \<le> n \<Longrightarrow>
   concat (map (matchEnds WordB) (star (matchEnds reDigit) n (True, t))) =
     (if nextIsWord (dropWhile isDigitByte t) then [] else [(True, dropWhile isDigitByte t)])"
proof (induction n arbitrary: t)
  case 0
  then show ?case by simp
next
  case (Suc n)
  show ?case
  proof (cases t)
    case Nil
    then show ?thesis by (simp add: reDigit_def)
  next
    case (Cons c u)
    then have "length u \<le> n" using Suc.prems by simp
    note ih = Suc.IH [OF this]
    show ?thesis
    proof (cases "isDigitByte c")
      case True
      have "star (matchEnds reDigit) (Suc n) (True, c # u)
              = star (matchEnds reDigit) n (True, u) @ [(True, c # u)]"
        using True by (simp add: step_digit)
      then show ?thesis
        using True Cons ih isDigitByte_word [OF True]
        by (simp only: concat_map_snoc wordB_Cons) simp
    next
      case False
      have e: "star (matchEnds reDigit) (Suc n) (True, c # u) = [(True, c # u)]"
        using False by (simp add: step_digit)
      show ?thesis
        unfolding Cons e using False by (simp add: wordB_Cons del: matchEnds.simps)
    qed
  qed
qed

lemma tail_word:
  "matchEnds (Cat (Star reWord) WordB) (True, t) = [(True, dropWhile isWordByte t)]"
  using star_word [of t "length t"] by (simp del: matchEnds.simps(6))

lemma tail_digit:
  "matchEnds (Cat (Star reDigit) WordB) (True, t) =
     (if nextIsWord (dropWhile isDigitByte t) then [] else [(True, dropWhile isDigitByte t)])"
  using star_digit [of t "length t"] by (simp del: matchEnds.simps(6))

lemma variableRegex_ends:
  "matchEnds variableRegex (w, c # t) =
     (if \<not> w \<and> isWordByte c \<and> \<not> isDigitByte c then [(True, dropWhile isWordByte t)] else [])"
  "matchEnds variableRegex (w, []) = []"
proof -
  have "matchEnds variableRegex (w, c # t) =
          concat (map (matchEnds (Cat (Cls [(0x41, 0x5A), (0x5F, 0x5F), (0x61, 0x7A)])
                                   (Cat (Star reWord) WordB)))
                   (matchEnds WordB (w, c # t)))"
    by (simp add: variableRegex_def del: matchEnds.simps(1,5,6))
  also have "\<dots> = (if w \<noteq> isWordByte c
                    then concat (map (matchEnds (Cat (Star reWord) WordB))
                                  (matchEnds (Cls [(0x41, 0x5A), (0x5F, 0x5F), (0x61, 0x7A)]) (w, c # t)))
                    else [])"
    by (simp add: wordB_Cons del: matchEnds.simps(1,3,5,6)) (simp del: matchEnds.simps(1,5,6))
  also have "\<dots> = (if \<not> w \<and> isWordByte c \<and> \<not> isDigitByte c then [(True, dropWhile isWordByte t)] else [])"
    by (auto simp: step_letter tail_word simp del: matchEnds.simps)
  finally show "matchEnds variableRegex (w, c # t) =
     (if \<not> w \<and> isWordByte c \<and> \<not> isDigitByte c then [(True, dropWhile isWordByte t)] else [])" .
  show "matchEnds variableRegex (w, []) = []"
    by (simp add: variableRegex_def)
qed

lemma numberRegex_ends:
  "matchEnds numberRegex (w, c # t) =
     (if \<not> w \<and> isDigitByte c \<and> \<not> nextIsWord (dropWhile isDigitByte t)
      then [(True, dropWhile isDigitByte t)] else [])"
  "matchEnds numberRegex (w, []) = []"
proof -
  have b: "matchEnds (Cat (Star reDigit) WordB)
             = (\<lambda>x. concat (map (matchEnds WordB) (matchEnds (Star reDigit) x)))"
    by (rule ext) (simp del: matchEnds.simps(1,5,6))
  have a: "matchEnds (Cat (Plus reDigit) WordB) z =
             concat (map (matchEnds (Cat (Star reDigit) WordB)) (matchEnds reDigit z))" for z
    unfolding b by (simp add: Plus_def concat_map_concat del: matchEnds.simps(1,5,6))
  have "matchEnds numberRegex (w, c # t) =
          concat (map (matchEnds (Cat (Plus reDigit) WordB)) (matchEnds WordB (w, c # t)))"
    by (simp add: numberRegex_def del: matchEnds.simps(1,5,6))
  also have "\<dots> = (if w \<noteq> isWordByte c
                    then concat (map (matchEnds (Cat (Star reDigit) WordB)) (matchEnds reDigit (w, c # t)))
                    else [])"
    by (simp add: wordB_Cons a del: matchEnds.simps)
  also have "\<dots> = (if \<not> w \<and> isDigitByte c \<and> \<not> nextIsWord (dropWhile isDigitByte t)
      then [(True, dropWhile isDigitByte t)] else [])"
    using isDigitByte_word [of c]
    by (auto simp: step_digit tail_digit simp del: matchEnds.simps)
  finally show "matchEnds numberRegex (w, c # t) =
     (if \<not> w \<and> isDigitByte c \<and> \<not> nextIsWord (dropWhile isDigitByte t)
      then [(True, dropWhile isDigitByte t)] else [])" .
  show "matchEnds numberRegex (w, []) = []"
    by (simp add: numberRegex_def Plus_def reDigit_def)
qed

lemma byte_dquote: "byte dquote = 0x22"
  by (simp add: dquote_def byte_def)

lemma lit_dquote: "lit [dquote] = Cls [(0x22, 0x22)]"
  by (simp add: lit_def litRunes_def byte_dquote)

lemma is_dquote: "inRanges [(0x22, 0x22)] (byte c) = (c = dquote)"
  using byte_eq_iff [of c dquote] by (simp only: byte_dquote) (auto simp: inRanges_def)

lemma dquote_word: "\<not> isWordByte dquote"
  by (simp add: isWordByte_def byte_dquote isWordRune_def inRanges_def wordRanges_def)

lemma step_quote: "matchEnds (lit [dquote]) (w, c # t) = (if c = dquote then [(False, t)] else [])"
  using dquote_word by (simp add: lit_dquote stepRune_low is_dquote)

lemma step_notquote:
  "matchEnds (reNot dquote) (w, c # t) =
     (if c = dquote then [] else [(isWordByte c, drop (runeWidth (c # t) - 1) t)])"
  using inRanges_low [of "[(0x22, 0x22)]" c t]
  by (simp add: reNot_def byte_dquote stepRune_Cons is_dquote)

lemma high_not_dquote: "0x80 \<le> byte x \<Longrightarrow> x \<noteq> dquote"
  using byte_dquote by auto

lemma star_notquote:
  "length t \<le> n \<Longrightarrow>
   concat (map (matchEnds (lit [dquote])) (star (matchEnds (reNot dquote)) n (w, t))) =
     (if dquote \<in> set t then [(False, drop 1 (dropWhile (\<lambda>x. x \<noteq> dquote) t))] else [])"
proof (induction n arbitrary: w t)
  case 0
  then show ?case by (simp add: lit_dquote)
next
  case (Suc n)
  show ?case
  proof (cases t)
    case Nil
    then show ?thesis by (simp add: reNot_def lit_dquote)
  next
    case (Cons c u)
    show ?thesis
    proof (cases "c = dquote")
      case True
      then show ?thesis using Cons by (simp add: step_notquote step_quote)
    next
      case False
      let ?k = "runeWidth (c # u) - 1"
      let ?u = "drop ?k u"
      have len: "length ?u \<le> n" using Suc.prems Cons by simp
      have p: "\<forall>x \<in> set (take ?k u). x \<noteq> dquote"
        using rune_tail_high [of _ c u] high_not_dquote by blast
      have u: "u = take ?k u @ ?u" by simp
      have a: "dquote \<in> set u \<longleftrightarrow> dquote \<in> set ?u"
        using p by (subst u, simp only: set_append) blast
      have "dropWhile (\<lambda>x. x \<noteq> dquote) (take ?k u @ ?u) = dropWhile (\<lambda>x. x \<noteq> dquote) ?u"
        using p by (intro dropWhile_append2) auto
      then have b: "dropWhile (\<lambda>x. x \<noteq> dquote) u = dropWhile (\<lambda>x. x \<noteq> dquote) ?u"
        by simp
      have lt: "length ?u < length (c # u)" by simp
      have "concat (map (matchEnds (lit [dquote])) (star (matchEnds (reNot dquote)) (Suc n) (w, c # u)))
              = concat (map (matchEnds (lit [dquote])) (star (matchEnds (reNot dquote)) n (isWordByte c, ?u)))"
        using False lt by (simp add: step_notquote step_quote)
      also have "\<dots> = (if dquote \<in> set ?u then [(False, drop 1 (dropWhile (\<lambda>x. x \<noteq> dquote) ?u))] else [])"
        by (rule Suc.IH [OF len])
      finally show ?thesis
        using False Cons a b by simp
    qed
  qed
qed

lemma tail_quote:
  "matchEnds (Cat (Star (reNot dquote)) (lit [dquote])) (w, t) =
     (if dquote \<in> set t then [(False, drop 1 (dropWhile (\<lambda>x. x \<noteq> dquote) t))] else [])"
  using star_notquote [of t "length t" w] by simp

lemma stringRegex_ends:
  "matchEnds stringRegex (w, c # t) =
     (if c = dquote \<and> dquote \<in> set t
      then [(False, drop 1 (dropWhile (\<lambda>x. x \<noteq> dquote) t))] else [])"
  "matchEnds stringRegex (w, []) = []"
proof -
  have "matchEnds stringRegex (w, c # t) =
          concat (map (matchEnds (Cat (Star (reNot dquote)) (lit [dquote])))
                   (matchEnds (lit [dquote]) (w, c # t)))"
    by (simp add: stringRegex_def)
  also have "\<dots> = (if c = dquote \<and> dquote \<in> set t
      then [(False, drop 1 (dropWhile (\<lambda>x. x \<noteq> dquote) t))] else [])"
    by (simp add: step_quote tail_quote del: matchEnds.simps)
  finally show "matchEnds stringRegex (w, c # t) =
     (if c = dquote \<and> dquote \<in> set t
      then [(False, drop 1 (dropWhile (\<lambda>x. x \<noteq> dquote) t))] else [])" .
  show "matchEnds stringRegex (w, []) = []"
    by (simp add: stringRegex_def lit_dquote)
qed

section \<open>Properties: the replacements as maps on words\<close>

lemma takeWhile_dropWhile_Nil [simp]: "takeWhile P (dropWhile P t) = []"
  by (induction t) auto

text \<open>An expression that matches exactly the words with property \<open>Q\<close>, at their
  start, replaces these words.\<close>

lemma word_replace:
  assumes r: "consuming r"
    and ends: "\<And>w c t. matchEnds r (w, c # t) =
                 (if \<not> w \<and> isWordByte c \<and> Q (c # takeWhile isWordByte t)
                  then [(True, dropWhile isWordByte t)] else [])"
  shows "replaceFrom r repl w s =
           (if w then takeWhile isWordByte s
                       @ wordMap (\<lambda>x. if Q x then repl else x) (dropWhile isWordByte s)
            else wordMap (\<lambda>x. if Q x then repl else x) s)"
proof (induction "length s" arbitrary: w s rule: less_induct)
  case less
  let ?h = "\<lambda>x. if Q x then repl else x"
  show ?case
  proof (cases s)
    case Nil
    then show ?thesis using replaceFrom_Nil [OF r] by simp
  next
    case (Cons c t)
    let ?tw = "takeWhile isWordByte t"
    let ?dw = "dropWhile isWordByte t"
    show ?thesis
    proof (cases "\<not> w \<and> isWordByte c \<and> Q (c # ?tw)")
      case True
      then have m: "matchEnds r (w, c # t) = [(True, ?dw)]"
        by (simp add: ends)
      have lt: "length ?dw < length s"
        using Cons length_dropWhile_le [of isWordByte t] by simp
      have "replaceFrom r repl w (c # t) = repl @ replaceFrom r repl True ?dw"
        using replaceFrom_step(1) [OF r m] by simp
      also have "replaceFrom r repl True ?dw = wordMap ?h ?dw"
        using less [OF lt, of True] by simp
      finally show ?thesis
        using True Cons by (simp add: wordMap_wordbyte)
    next
      case False
      then have m: "matchEnds r (w, c # t) = []"
        by (simp add: ends)
      from replaceFrom_step(2) [OF r m, of repl] obtain p u where
        pu: "t = p @ u" "\<forall>x \<in> set p. 0x80 \<le> byte x" "byte c < 0x80 \<longrightarrow> p = []"
        "replaceFrom r repl w (c # t) = c # p @ replaceFrom r repl (isWordByte c) u"
        by blast
      have lt: "length u < length s" using Cons pu(1) by simp
      note ih = less [OF lt, of "isWordByte c"]
      show ?thesis
      proof (cases "isWordByte c")
        case True
        then have "p = []" using pu(3) isWordByte_ascii by blast
        then have u: "u = t" using pu(1) by simp
        have "replaceFrom r repl w (c # t) = c # ?tw @ wordMap ?h ?dw"
          using pu(4) ih True u \<open>p = []\<close> by simp
        then show ?thesis
          using True False Cons by (auto simp: wordMap_wordbyte)
      next
        case nw: False
        have np: "list_all (\<lambda>x. \<not> isWordByte x) p"
          using pu(2) isWordByte_high by (auto simp: list_all_iff)
        have "replaceFrom r repl w (c # t) = c # p @ wordMap ?h u"
          using pu(4) ih nw by simp
        also have "\<dots> = wordMap ?h (c # t)"
          using nw wordMap_nonword_prefix [OF np, of ?h u] pu(1) by simp
        finally show ?thesis
          using nw Cons by simp
      qed
    qed
  qed
qed

lemma variableRegex_consuming: "consuming variableRegex"
  by (simp add: variableRegex_def)

lemma numberRegex_consuming: "consuming numberRegex"
  by (simp add: numberRegex_def Plus_def reDigit_def)

lemma stringRegex_consuming: "consuming stringRegex"
  by (simp add: stringRegex_def lit_dquote)

lemma identShaped_run:
  "isWordByte c \<Longrightarrow> identShaped (c # takeWhile isWordByte t) = (\<not> isDigitByte c)"
  using isWord_run [of c t] by (simp add: identShaped_def)

lemma digits_run:
  "(\<not> nextIsWord (dropWhile isDigitByte t)) = list_all isDigitByte (takeWhile isWordByte t)"
  "list_all isDigitByte (takeWhile isWordByte t) \<Longrightarrow> dropWhile isDigitByte t = dropWhile isWordByte t"
  using isDigitByte_word by (induction t) auto

lemma replace_variables:
  "replaceFrom variableRegex repl False s = wordMap (\<lambda>x. if identShaped x then repl else x) s"
proof -
  have "matchEnds variableRegex (w, c # t) =
          (if \<not> w \<and> isWordByte c \<and> identShaped (c # takeWhile isWordByte t)
           then [(True, dropWhile isWordByte t)] else [])" for w c t
    using identShaped_run [of c t] by (auto simp: variableRegex_ends)
  from word_replace [of variableRegex identShaped, OF variableRegex_consuming this, of repl False s]
  show ?thesis by simp
qed

lemma replace_numbers:
  "replaceFrom numberRegex repl False s = wordMap (\<lambda>x. if list_all isDigitByte x then repl else x) s"
proof -
  have "matchEnds numberRegex (w, c # t) =
          (if \<not> w \<and> isWordByte c \<and> list_all isDigitByte (c # takeWhile isWordByte t)
           then [(True, dropWhile isWordByte t)] else [])" for w c t
    using isDigitByte_word [of c] digits_run [of t] by (auto simp: numberRegex_ends)
  from word_replace [of numberRegex "list_all isDigitByte", OF numberRegex_consuming this, of repl False s]
  show ?thesis by simp
qed

lemma replaceQuoted_prefix:
  "\<forall>x \<in> set p. x \<noteq> dquote \<Longrightarrow> replaceQuoted repl (p @ u) = p @ replaceQuoted repl u"
  by (induction p) auto

lemma replace_strings: "replaceFrom stringRegex repl w s = replaceQuoted repl s"
proof (induction "length s" arbitrary: w s rule: less_induct)
  case less
  show ?case
  proof (cases s)
    case Nil
    then show ?thesis using replaceFrom_Nil [OF stringRegex_consuming] by simp
  next
    case (Cons c t)
    let ?d = "drop 1 (dropWhile (\<lambda>x. x \<noteq> dquote) t)"
    show ?thesis
    proof (cases "c = dquote \<and> dquote \<in> set t")
      case True
      then have m: "matchEnds stringRegex (w, c # t) = [(False, ?d)]"
        by (simp add: stringRegex_ends)
      have "length (dropWhile (\<lambda>x. x \<noteq> dquote) t) \<le> length t"
        by (rule length_dropWhile_le)
      then have lt: "length ?d < length s" using Cons by simp
      have "replaceFrom stringRegex repl w (c # t) = repl @ replaceFrom stringRegex repl False ?d"
        using replaceFrom_step(1) [OF stringRegex_consuming m] by simp
      then show ?thesis
        using less [OF lt, of False] True Cons by simp
    next
      case False
      then have m: "matchEnds stringRegex (w, c # t) = []"
        by (simp add: stringRegex_ends)
      from replaceFrom_step(2) [OF stringRegex_consuming m, of repl] obtain p u where
        pu: "t = p @ u" "\<forall>x \<in> set p. 0x80 \<le> byte x"
        "replaceFrom stringRegex repl w (c # t) = c # p @ replaceFrom stringRegex repl (isWordByte c) u"
        by blast
      have lt: "length u < length s" using Cons pu(1) by simp
      have np: "\<forall>x \<in> set p. x \<noteq> dquote"
        using pu(2) high_not_dquote by blast
      have "replaceFrom stringRegex repl w (c # t) = c # p @ replaceQuoted repl u"
        using pu(3) less [OF lt] by simp
      also have "\<dots> = c # replaceQuoted repl t"
        using replaceQuoted_prefix [OF np] pu(1) by simp
      also have "\<dots> = replaceQuoted repl (c # t)"
        using False by auto
      finally show ?thesis using Cons by simp
    qed
  qed
qed

text \<open>The line normalization, without the regular expressions.\<close>

lemma normalizeCodeLine_words:
  "normalizeCodeLine line =
     wordMap (\<lambda>x. if identShaped x then ''VAR'' else x)
       (wordMap (\<lambda>x. if list_all isDigitByte x then ''NUM'' else x)
          (replaceQuoted ([dquote] @ ''STRING'' @ [dquote]) line))"
  by (simp only: normalizeCodeLine_def ReplaceAllString_replaceFrom [OF stringRegex_consuming]
      ReplaceAllString_replaceFrom [OF numberRegex_consuming]
      ReplaceAllString_replaceFrom [OF variableRegex_consuming]
      replace_strings replace_numbers replace_variables)

section \<open>Properties: renaming the identifiers of a line\<close>

lemma replaceQuoted_noquote: "dquote \<notin> set s \<Longrightarrow> replaceQuoted repl s = s"
  using replaceQuoted_prefix [of s repl "[]"] by auto

lemma replaceQuoted_single:
  assumes "dquote \<notin> set p" "dquote \<notin> set m"
  shows "replaceQuoted repl (p @ dquote # m) = p @ dquote # m"
proof -
  have a: "replaceQuoted repl (dquote # m) = dquote # m"
    using assms(2) by (simp add: replaceQuoted_noquote)
  have b: "\<forall>x \<in> set p. x \<noteq> dquote"
    using assms(1) by auto
  show ?thesis
    by (simp only: replaceQuoted_prefix [OF b] a)
qed

lemma replaceQuoted_pair:
  assumes "dquote \<notin> set p" "dquote \<notin> set m"
  shows "replaceQuoted repl (p @ dquote # m @ dquote # rest) = p @ repl @ replaceQuoted repl rest"
proof -
  have "dropWhile (\<lambda>x. x \<noteq> dquote) (m @ dquote # rest) = dquote # rest"
    using assms(2) by (subst dropWhile_append2) auto
  then have a: "replaceQuoted repl (dquote # m @ dquote # rest) = repl @ replaceQuoted repl rest"
    by simp
  have b: "\<forall>x \<in> set p. x \<noteq> dquote"
    using assms(1) by auto
  show ?thesis
    by (simp only: replaceQuoted_prefix [OF b] a)
qed

text \<open>Every text has no quote, one quote, or a first pair of quotes.\<close>

lemma quote_cases:
  obtains (none) "dquote \<notin> set s"
  | (single) p m where "s = p @ dquote # m" "dquote \<notin> set p" "dquote \<notin> set m"
  | (pair) p m rest where "s = p @ dquote # m @ dquote # rest" "dquote \<notin> set p" "dquote \<notin> set m"
proof (cases "dquote \<in> set s")
  case False
  then show ?thesis by (rule none)
next
  case True
  then obtain p t where s: "s = p @ dquote # t" "dquote \<notin> set p"
    by (auto dest: split_list_first)
  show ?thesis
  proof (cases "dquote \<in> set t")
    case False
    then show ?thesis using s by (intro single [of p t]) auto
  next
    case True
    then obtain m rest where t: "t = m @ dquote # rest" "dquote \<notin> set m"
      by (auto dest: split_list_first)
    show ?thesis using s t by (intro pair [of p m rest]) auto
  qed
qed

lemma wordMap_set:
  assumes "\<And>w. isWord w \<Longrightarrow> isWord (h w)"
  shows "x \<in> set (wordMap h s) \<Longrightarrow> \<not> isWordByte x \<Longrightarrow> x \<in> set s"
proof (induction "length s" arbitrary: s rule: less_induct)
  case less
  show ?case
  proof (cases s)
    case Nil
    then show ?thesis using less.prems by simp
  next
    case (Cons c t)
    show ?thesis
    proof (cases "isWordByte c")
      case False
      then show ?thesis using less.hyps [of t] less.prems Cons by auto
    next
      case True
      let ?dw = "dropWhile isWordByte t"
      have lt: "length ?dw < length s"
        using Cons length_dropWhile_le [of isWordByte t] by simp
      have "isWord (h (c # takeWhile isWordByte t))"
        using assms isWord_run [OF True] by blast
      then have "x \<notin> set (h (c # takeWhile isWordByte t))"
        using less.prems(2) by (auto simp: isWord_def list_all_iff)
      then have "x \<in> set (wordMap h ?dw)"
        using less.prems(1) Cons True by (simp add: wordMap_wordbyte)
      then have "x \<in> set ?dw"
        using less.hyps [OF lt] less.prems(2) by blast
      then show ?thesis
        using Cons set_dropWhileD by fastforce
    qed
  qed
qed

lemma wordMap_noquote:
  assumes "\<And>w. isWord w \<Longrightarrow> isWord (h w)" "dquote \<notin> set s"
  shows "dquote \<notin> set (wordMap h s)"
  using wordMap_set [where h = h and x = dquote and s = s] assms dquote_word by blast

text \<open>The normalization after the strings are replaced: one map on words.\<close>

lemma isWord_NUM: "isWord ''NUM''"
  by code_simp

lemma identShaped_VAR: "identShaped ''VAR''" "identShaped ''NUM''" "identShaped ''STRING''"
  by code_simp+

lemma identShaped_not_digits: "identShaped w \<Longrightarrow> \<not> list_all isDigitByte w"
  by (cases w) (auto simp: identShaped_def isWord_def)

lemma identShaped_isWord: "identShaped w \<Longrightarrow> isWord w"
  by (simp add: identShaped_def)

lemma normalizeCodeLine_one:
  "normalizeCodeLine line =
     wordMap (\<lambda>w. if list_all isDigitByte w \<or> identShaped w then ''VAR'' else w)
       (replaceQuoted ([dquote] @ ''STRING'' @ [dquote]) line)"
proof -
  let ?hN = "\<lambda>x. if list_all isDigitByte x then ''NUM'' else x"
  let ?hV = "\<lambda>x. if identShaped x then ''VAR'' else x"
  have p: "isWord (?hN w)" if "isWord w" for w
    using that isWord_NUM by simp
  have "?hV (?hN w) = (if list_all isDigitByte w \<or> identShaped w then ''VAR'' else w)" for w
    using identShaped_VAR(2) by simp
  then have e: "(\<lambda>w. ?hV (?hN w)) = (\<lambda>w. if list_all isDigitByte w \<or> identShaped w then ''VAR'' else w)"
    by (rule ext)
  have "wordMap ?hV (wordMap ?hN s) = wordMap (\<lambda>w. ?hV (?hN w)) s" for s
    by (rule wordMap_comp [OF p])
  then show ?thesis
    by (simp only: normalizeCodeLine_words e)
qed

lemma normalizeCodeLine_renameIdentifiers:
  assumes f: "\<And>w. identShaped w \<Longrightarrow> identShaped (f w)"
  shows "normalizeCodeLine (renameIdentifiers f line) = normalizeCodeLine line"
proof -
  let ?g = "\<lambda>w. if identShaped w then f w else w"
  let ?k = "\<lambda>w. if list_all isDigitByte w \<or> identShaped w then ''VAR'' else w"
  let ?q = "[dquote] @ ''STRING'' @ [dquote]"
  have g: "isWord (?g w)" if "isWord w" for w
    using that f identShaped_isWord by auto
  have kg: "?k (?g w) = ?k w" for w
    using f [of w] identShaped_not_digits by auto
  have c: "wordMap ?k (wordMap ?g s) = wordMap ?k s" for s
  proof -
    have "wordMap ?k (wordMap ?g s) = wordMap (\<lambda>w. ?k (?g w)) s"
      by (rule wordMap_comp [OF g])
    also have "\<dots> = wordMap ?k s"
      by (rule wordMap_cong) (rule kg)
    finally show ?thesis .
  qed
  have nq: "dquote \<notin> set (wordMap ?g s)" if "dquote \<notin> set s" for s
    using wordMap_noquote [of ?g, OF g that] .
  have sep: "wordMap h (a @ dquote # b) = wordMap h a @ dquote # wordMap h b" for h a b
    using dquote_word by (rule wordMap_sep)
  have kq: "wordMap ?k (a @ ?q @ b) = wordMap ?k a @ dquote # wordMap ?k ''STRING'' @ dquote # wordMap ?k b"
    for a b
  proof -
    have "a @ ?q @ b = a @ dquote # (''STRING'' @ dquote # b)" by simp
    then show ?thesis by (simp only: sep)
  qed
  have "wordMap ?k (replaceQuoted ?q (wordMap ?g s)) = wordMap ?k (replaceQuoted ?q s)" for s
  proof (induction "length s" arbitrary: s rule: less_induct)
    case less
    show ?case
    proof (cases s rule: quote_cases)
      case none
      then show ?thesis
        using nq [OF none] by (simp add: replaceQuoted_noquote c)
    next
      case (single p m)
      have "wordMap ?g s = wordMap ?g p @ dquote # wordMap ?g m"
        unfolding single(1) by (rule sep)
      then have "replaceQuoted ?q (wordMap ?g s) = wordMap ?g s"
        by (simp only: replaceQuoted_single [OF nq [OF single(2)] nq [OF single(3)]])
      moreover have "replaceQuoted ?q s = s"
        unfolding single(1) using single(2,3) by (rule replaceQuoted_single)
      ultimately show ?thesis by (simp only: c)
    next
      case (pair p m rest)
      have lt: "length rest < length s" using pair(1) by simp
      have "wordMap ?g s = wordMap ?g p @ dquote # wordMap ?g m @ dquote # wordMap ?g rest"
        unfolding pair(1) by (simp only: sep)
      then have "replaceQuoted ?q (wordMap ?g s)
                   = wordMap ?g p @ ?q @ replaceQuoted ?q (wordMap ?g rest)"
        by (simp only: replaceQuoted_pair [OF nq [OF pair(2)] nq [OF pair(3)]])
      then have "wordMap ?k (replaceQuoted ?q (wordMap ?g s))
                   = wordMap ?k p @ dquote # wordMap ?k ''STRING'' @ dquote
                       # wordMap ?k (replaceQuoted ?q rest)"
        by (simp only: kq c less [OF lt])
      moreover have "replaceQuoted ?q s = p @ ?q @ replaceQuoted ?q rest"
        unfolding pair(1) using pair(2,3) by (rule replaceQuoted_pair)
      then have "wordMap ?k (replaceQuoted ?q s)
                   = wordMap ?k p @ dquote # wordMap ?k ''STRING'' @ dquote
                       # wordMap ?k (replaceQuoted ?q rest)"
        by (simp only: kq)
      ultimately show ?thesis by simp
    qed
  qed
  then show ?thesis
    by (simp only: normalizeCodeLine_one renameIdentifiers_def)
qed

section \<open>Properties: lines that differ only in their identifiers\<close>

lemma identShaped_x: "identShaped ''x''"
  by code_simp

lemma erase_isWord: "isWord w \<Longrightarrow> isWord (if identShaped w then ''x'' else w)"
  using identShaped_isWord [OF identShaped_x] by simp

lemma eraseIdentifiers_renameIdentifiers:
  assumes f: "\<And>w. identShaped w \<Longrightarrow> identShaped (f w)"
  shows "eraseIdentifiers (renameIdentifiers f line) = eraseIdentifiers line"
proof -
  let ?g = "\<lambda>w. if identShaped w then f w else w"
  let ?e = "\<lambda>w. if identShaped w then ''x'' else w"
  have g: "isWord (?g w)" if "isWord w" for w
    using that f identShaped_isWord by auto
  have "wordMap ?e (wordMap ?g line) = wordMap (\<lambda>w. ?e (?g w)) line"
    by (rule wordMap_comp [OF g])
  also have "\<dots> = wordMap ?e line"
    using f by (intro wordMap_cong) simp
  finally show ?thesis
    by (simp only: eraseIdentifiers_def renameIdentifiers_def)
qed

lemma normalizeCodeLine_eraseIdentifiers:
  "normalizeCodeLine (eraseIdentifiers line) = normalizeCodeLine line"
  unfolding eraseIdentifiers_def
  using identShaped_x by (intro normalizeCodeLine_renameIdentifiers)

lemma differ_normalizeCodeLine:
  "differOnlyInIdentifiers a b \<Longrightarrow> normalizeCodeLine a = normalizeCodeLine b"
  using normalizeCodeLine_eraseIdentifiers [of a] normalizeCodeLine_eraseIdentifiers [of b]
  by (simp add: differOnlyInIdentifiers_def)

lemma eraseIdentifiers_TrimSpace:
  "eraseIdentifiers (TrimSpace s) = TrimSpace (eraseIdentifiers s)"
  unfolding eraseIdentifiers_def renameIdentifiers_def
  using erase_isWord by (intro TrimSpace_wordMap [symmetric])

lemma eraseIdentifiers_Nil: "eraseIdentifiers s = [] \<longleftrightarrow> s = []"
  unfolding eraseIdentifiers_def renameIdentifiers_def
  using erase_isWord by (intro wordMap_head(1))

lemma eraseIdentifiers_HasPrefix:
  "list_all (\<lambda>c. \<not> isWordByte c) e \<Longrightarrow> HasPrefix (eraseIdentifiers s) e = HasPrefix s e"
  unfolding eraseIdentifiers_def renameIdentifiers_def
  using erase_isWord by (intro HasPrefix_wordMap)

lemma comment_marks: "list_all (\<lambda>c. \<not> isWordByte c) ''//''" "list_all (\<lambda>c. \<not> isWordByte c) ''*''"
  by code_simp+

lemma normalizeLines_differ:
  "list_all2 differOnlyInIdentifiers win win' \<Longrightarrow>
   normalizeLines win' acc = normalizeLines win acc"
proof (induction win win' arbitrary: acc rule: list_all2_induct)
  case Nil
  then show ?case by simp
next
  case (Cons a win b win')
  have t: "eraseIdentifiers (TrimSpace a) = eraseIdentifiers (TrimSpace b)"
    using Cons.hyps(1) by (simp add: differOnlyInIdentifiers_def eraseIdentifiers_TrimSpace)
  have e: "TrimSpace a = [] \<longleftrightarrow> TrimSpace b = []"
    using t eraseIdentifiers_Nil by metis
  have p: "HasPrefix (TrimSpace a) m = HasPrefix (TrimSpace b) m"
    if "list_all (\<lambda>c. \<not> isWordByte c) m" for m
    using t eraseIdentifiers_HasPrefix [OF that] by metis
  have n: "normalizeCodeLine (TrimSpace a) = normalizeCodeLine (TrimSpace b)"
    using t by (intro differ_normalizeCodeLine) (simp add: differOnlyInIdentifiers_def)
  show ?case
    using e p [OF comment_marks(1)] p [OF comment_marks(2)] n Cons.IH
    by (simp add: Let_def)
qed

lemma normalizeBlock_differ:
  "list_all2 differOnlyInIdentifiers win win' \<Longrightarrow> normalizeBlock win' = normalizeBlock win"
  by (simp add: normalizeBlock_def normalizeLines_differ)

lemma filter_two:
  assumes "i < n" "j < n" "i \<noteq> j" "P i" "P j"
  shows "2 \<le> length (filter P [0..<n])"
proof -
  have "{i, j} \<subseteq> set (filter P [0..<n])"
    using assms by auto
  then have "card {i, j} \<le> card (set (filter P [0..<n]))"
    by (intro card_mono) auto
  moreover have "card (set (filter P [0..<n])) = length (filter P [0..<n])"
    by (intro distinct_card) simp
  ultimately show ?thesis using assms(3) by simp
qed

section \<open>Properties: duplicate blocks under renaming\<close>

text \<open>
  Claim C7. An identifier is a word of ASCII letters, digits and underscores that does
  not start with a digit, as in the expression of the program. When the lines of two
  windows of a file differ, line by line, only in their identifiers, the two windows
  have the same key; when the key is not empty (a window with fewer than three
  substantive lines is skipped), its group has at least two members and, for every
  order in which the keys are visited, each of the two windows gets exactly one
  finding. A substitution of identifiers by identifiers, applied to a line, gives a
  line that differs from it only in its identifiers, and the same normalized line.
\<close>

theorem duplicate_blocks_renaming:
  assumes "validOrder (fileBlocks file) order"
    and "i < windowCount (Lines file)" and "j < windowCount (Lines file)" and "i \<noteq> j"
    and "list_all2 differOnlyInIdentifiers
           (take (nat blockSize) (drop i (Lines file))) (take (nat blockSize) (drop j (Lines file)))"
  shows "windowKey (Lines file) j = windowKey (Lines file) i
     \<and> (windowKey (Lines file) i \<noteq> [] \<longrightarrow>
          2 \<le> length (keyGroup (Lines file) (windowKey (Lines file) i))
          \<and> length (filter (\<lambda>f. Issue.Line f = int i + 1)
                      (checkDuplicateBlocks L config order file [])) = 1
          \<and> length (filter (\<lambda>f. Issue.Line f = int j + 1)
                      (checkDuplicateBlocks L config order file [])) = 1)
     \<and> (\<forall>f line. (\<forall>w. identShaped w \<longrightarrow> identShaped (f w)) \<longrightarrow>
            differOnlyInIdentifiers line (renameIdentifiers f line)
            \<and> normalizeCodeLine (renameIdentifiers f line) = normalizeCodeLine line)"
proof -
  let ?ls = "Lines file"
  have k: "windowKey ?ls j = windowKey ?ls i"
    unfolding windowKey_def by (rule normalizeBlock_differ [OF assms(5)])
  have "2 \<le> length (filter (\<lambda>x. windowKey ?ls x = windowKey ?ls i) [0..<windowCount ?ls])"
    using assms(2,3,4) k by (intro filter_two [of i _ j]) simp_all
  then have g: "2 \<le> length (keyGroup ?ls (windowKey ?ls i))"
    by (simp add: keyGroup_def)
  have r: "differOnlyInIdentifiers line (renameIdentifiers f line)
           \<and> normalizeCodeLine (renameIdentifiers f line) = normalizeCodeLine line"
    if "\<forall>w. identShaped w \<longrightarrow> identShaped (f w)" for f line
    using that eraseIdentifiers_renameIdentifiers [of f line]
      normalizeCodeLine_renameIdentifiers [of f line]
    by (simp add: differOnlyInIdentifiers_def)
  show ?thesis
    using k g r findings_per_line [OF assms(1,2), of L config]
      findings_per_line [OF assms(1,3), of L config]
    by simp
qed

theorem duplicate_blocks_renaming_witness:
  "windowKey (Lines (exFile (Join exRenamedLines [newline]) NoAST)) 1
     = windowKey (Lines (exFile (Join exRenamedLines [newline]) NoAST)) 0
   \<and> windowKey (Lines (exFile (Join exRenamedLines [newline]) NoAST)) 0 = exSevenKey
   \<and> length (filter (\<lambda>f. Issue.Line f = 1)
         (checkDuplicateBlocks (\<lambda>r. r) exConfig [exSevenKey]
            (exFile (Join exRenamedLines [newline]) NoAST) [])) = 1
   \<and> length (filter (\<lambda>f. Issue.Line f = 2)
         (checkDuplicateBlocks (\<lambda>r. r) exConfig [exSevenKey]
            (exFile (Join exRenamedLines [newline]) NoAST) [])) = 1
   \<and> normalizeCodeLine (renameIdentifiers (\<lambda>w. ''total'') ''a = b + 1;'')
       = normalizeCodeLine ''a = b + 1;''"
proof -
  let ?file = "exFile (Join exRenamedLines [newline]) NoAST"
  have v: "validOrder (fileBlocks ?file) [exSevenKey]"
    by code_simp
  have n: "(0::nat) < windowCount (Lines ?file)" "(1::nat) < windowCount (Lines ?file)"
    by code_simp+
  have d: "list_all2 differOnlyInIdentifiers
             (take (nat blockSize) (drop 0 (Lines ?file))) (take (nat blockSize) (drop 1 (Lines ?file)))"
    by code_simp
  have e: "windowKey (Lines ?file) 0 = exSevenKey"
    by code_simp
  have ne: "exSevenKey \<noteq> []"
    by code_simp
  have t: "identShaped ''total''"
    by code_simp
  have s: "\<forall>w. identShaped w \<longrightarrow> identShaped ((\<lambda>w. ''total'') w)"
    using t by simp
  show ?thesis
    using duplicate_blocks_renaming [OF v n(1) n(2) _ d, of "\<lambda>r. r" exConfig] e ne s
    by simp
qed

section \<open>Properties: type mismatch and unknown languages\<close>





section \<open>Properties: the key of a window\<close>

lemma HasPrefix_prefix: "HasPrefix s p = prefix p s"
  by (auto simp: HasPrefix_append prefix_def)

lemma normalizeCodeLine_spec: "normalizeCodeLine l = specNormalizeLine l"
proof -
  have "placeholderWord = (\<lambda>w. if list_all isDigitByte w \<or> identShaped w then ''VAR'' else w)"
    by (rule ext) (simp add: placeholderWord_def)
  then show ?thesis
    by (simp only: normalizeCodeLine_one specNormalizeLine_def)
qed

lemma normalizeLines_filter:
  "normalizeLines win acc =
     acc @ map (\<lambda>l. specNormalizeLine (TrimSpace l)) (filter substantiveLine win)"
  by (induction win arbitrary: acc)
     (simp_all add: Let_def substantiveLine_def HasPrefix_prefix normalizeCodeLine_spec)

lemma Join_nonempty: "2 \<le> length xs \<Longrightarrow> sep \<noteq> [] \<Longrightarrow> Join xs sep \<noteq> []"
proof -
  assume a: "2 \<le> length xs" "sep \<noteq> []"
  then obtain x y ys where "xs = x # y # ys"
    by (cases xs; cases "tl xs") auto
  then show ?thesis using a(2) by simp
qed

lemma normalizeBlock_spec: "normalizeBlock win = specBlockKey win"
  by (simp add: normalizeBlock_def specBlockKey_def normalizeLines_filter Let_def)

lemma specBlockKey_empty:
  "specBlockKey win = [] \<longleftrightarrow> length (filter substantiveLine win) < 3"
proof (cases "length (filter substantiveLine win) < 3")
  case True
  then show ?thesis by (simp add: specBlockKey_def)
next
  case False
  then have "2 \<le> length (map (\<lambda>l. specNormalizeLine (TrimSpace l)) (filter substantiveLine win))"
    by simp
  then have "Join (map (\<lambda>l. specNormalizeLine (TrimSpace l)) (filter substantiveLine win)) [newline] \<noteq> []"
    by (rule Join_nonempty) simp
  then show ?thesis using False by (simp add: specBlockKey_def Let_def)
qed

text \<open>
  Claim C3 as worded does not hold. Three lines that are block comments, with two
  blank lines, leave three lines and have a key, and six such lines in a file are
  reported as two duplicate blocks; the numbers \<open>1L\<close> and \<open>0x1F\<close> are not replaced; the
  placeholder of a quoted text is itself replaced by the placeholder of identifiers.
\<close>

theorem block_comments_and_suffixed_numbers_stay:
  "normalizeBlock [''/* a */'', ''/* b */'', ''/* c */'', [], []]
     = Join [''/* VAR */'', ''/* VAR */'', ''/* VAR */''] [newline]
   \<and> length (checkDuplicateBlocks (\<lambda>r. r) exConfig
               [Join (replicate 5 ''/* VAR */'') [newline]]
               (exFile (Join exCommentLines [newline]) NoAST) []) = 2
   \<and> normalizeCodeLine ''x = 1L;'' = ''VAR = 1L;''
   \<and> normalizeCodeLine ''m = 0x1F;'' = ''VAR = 0x1F;''
   \<and> normalizeCodeLine (''s = '' @ [dquote] @ ''a b'' @ [dquote] @ '' + 7;'')
       = ''VAR = '' @ [dquote] @ ''VAR'' @ [dquote] @ '' + VAR;''"
  by code_simp

text \<open>
  Claim C3, amended. The key of every window is the key written out above: a line is
  discarded when, trimmed, it is empty or starts with \<open>//\<close> or \<open>*\<close> (a line that starts
  with \<open>/*\<close> is kept); a window with fewer than three lines left has the empty key, and
  only such a window has it; in the lines left, quoted texts, words of digits and words
  shaped like identifiers become placeholders (a number with a suffix or a prefix, such
  as \<open>1L\<close> or \<open>0x1F\<close>, stays). For every order in which the keys of the map are visited:
  for every window, the number of findings at its start line is 1 when its key is not
  empty and the group of the key has at least two members, and 0 otherwise; every
  finding belongs to such a window and reports the size of the group of its key. So a
  key with three windows yields three findings, all with the count 3.
\<close>

theorem checkDuplicateBlocks_keys_and_groups:
  assumes "validOrder (fileBlocks file) order"
  shows "(\<forall>i. windowKey (Lines file) i = specBlockKey (take 5 (drop i (Lines file))))
    \<and> (\<forall>win. specBlockKey win = [] \<longleftrightarrow> length (filter substantiveLine win) < 3)
    \<and> (\<forall>i < windowCount (Lines file).
          length (filter (\<lambda>f. Issue.Line f = int i + 1)
                    (checkDuplicateBlocks L config order file []))
            = (if windowKey (Lines file) i \<noteq> []
                  \<and> 2 \<le> length (keyGroup (Lines file) (windowKey (Lines file) i))
               then 1 else 0))
    \<and> (\<forall>f \<in> set (checkDuplicateBlocks L config order file []).
          \<exists>i < windowCount (Lines file). windowKey (Lines file) i \<noteq> []
            \<and> 2 \<le> length (keyGroup (Lines file) (windowKey (Lines file) i))
            \<and> f = duplicateIssue L config file (int i + 1)
                    (int (length (keyGroup (Lines file) (windowKey (Lines file) i)))))
    \<and> (\<forall>n c. Message (duplicateIssue L config file n c) = dupMsg1 @ Itoa c @ dupMsg2
              \<and> Issue.Line (duplicateIssue L config file n c) = n)"
proof -
  have k: "windowKey (Lines file) i = specBlockKey (take 5 (drop i (Lines file)))" for i
    by (simp add: windowKey_def normalizeBlock_spec blockSize_def)
  show ?thesis
    using findings_per_line [OF assms] findings_origin [OF assms] k specBlockKey_empty
    by (simp add: duplicateIssue_fields)
qed

theorem checkDuplicateBlocks_keys_and_groups_witness:
  "checkDuplicateBlocks (\<lambda>r. r) exConfig [exSevenKey]
       (exFile (Join exSevenLines [newline]) NoAST) [] =
     map (\<lambda>n. duplicateIssue (\<lambda>r. r) exConfig (exFile (Join exSevenLines [newline]) NoAST) n 3)
       [1, 2, 3]
   \<and> length (filter (\<lambda>f. Issue.Line f = 1)
         (checkDuplicateBlocks (\<lambda>r. r) exConfig [exSevenKey]
            (exFile (Join exSevenLines [newline]) NoAST) [])) = 1
   \<and> Message (duplicateIssue (\<lambda>r. r) exConfig (exFile (Join exSevenLines [newline]) NoAST) 1 3)
       = dupMsg1 @ ''3'' @ dupMsg2
   \<and> windowKey (Lines (exFile (Join exSevenLines [newline]) NoAST)) 0
       = specBlockKey [''a = 1;'', ''b = 2;'', ''c = 3;'', ''d = 4;'', ''e = 5;'']"
proof -
  let ?file = "exFile (Join exSevenLines [newline]) NoAST"
  have v: "validOrder (fileBlocks ?file) [exSevenKey]"
    by code_simp
  have wc: "0 < windowCount (Lines ?file)"
    by code_simp
  have k: "windowKey (Lines ?file) 0 = exSevenKey" "exSevenKey \<noteq> []"
    by code_simp+
  have g: "keyGroup (Lines ?file) exSevenKey = [1, 2, 3]"
    by code_simp
  have i: "Itoa 3 = ''3''"
    by code_simp
  have l: "take 5 (drop 0 (Lines ?file)) = [''a = 1;'', ''b = 2;'', ''c = 3;'', ''d = 4;'', ''e = 5;'']"
    by code_simp
  note t = checkDuplicateBlocks_keys_and_groups [OF v, of "\<lambda>r. r" exConfig]
  have a: "length (filter (\<lambda>f. Issue.Line f = 1) (checkDuplicateBlocks (\<lambda>r. r) exConfig [exSevenKey] ?file [])) = 1"
    using t [THEN conjunct2, THEN conjunct2, THEN conjunct1, rule_format, OF wc] k g by simp
  have b: "Message (duplicateIssue (\<lambda>r. r) exConfig ?file 1 3) = dupMsg1 @ ''3'' @ dupMsg2"
    using t [THEN conjunct2, THEN conjunct2, THEN conjunct2, THEN conjunct2, rule_format, of 1 3] i by simp
  have c: "checkDuplicateBlocks (\<lambda>r. r) exConfig [exSevenKey] ?file [] =
     map (\<lambda>n. duplicateIssue (\<lambda>r. r) exConfig ?file n 3) [1, 2, 3]"
    using checkDuplicateBlocks_concat [OF v, of "\<lambda>r. r" exConfig] g by simp
  have d: "windowKey (Lines ?file) 0 = specBlockKey [''a = 1;'', ''b = 2;'', ''c = 3;'', ''d = 4;'', ''e = 5;'']"
    using t [THEN conjunct1, rule_format, of 0] l by simp
  show ?thesis
    using a b c d by simp
qed

section \<open>Properties: the matcher on bytes and the matcher on runes\<close>

lemma runes_Nil_iff [simp]: "runes s = [] \<longleftrightarrow> s = []"
  by (cases s) simp_all




lemma dropRunes_Nil [simp]: "dropRunes k [] = []"
  by (cases k) simp_all














section \<open>Properties: matches of sequences of classes\<close>

















lemma runes_ascii: "list_all (\<lambda>c. byte c < 0x80) s \<Longrightarrow> runes s = map byte s"
  by (induction s) simp_all

section \<open>Properties: the conditional data operation\<close>









lemma takeWhile_Nil_hd: "(takeWhile P p \<noteq> []) = (p \<noteq> [] \<and> P (hd p))"
  by (cases p) auto






section \<open>Properties: the calls of an operation\<close>









section \<open>Properties: the transaction-need rule\<close>








end
